theory Spec2Isabelle
  imports Complex_Main
begin

section \<open>JavaScript numbers\<close>

text \<open>
  The collectors compute with JavaScript numbers, which are IEEE 754 doubles. A finite
  number is written \<open>Num x\<close> with a rational \<open>x\<close> and stands for the double nearest
  to \<open>x\<close>; the three special values are kept, because the division in
  \<open>calculateIndex\<close> can produce them.
\<close>

datatype jsnum = Num rat | NaN | PosInf | NegInf

text \<open>
  The double nearest to a rational. For \<open>x > 0\<close> the binade of \<open>x\<close> is the \<open>e\<close> with
  \<open>2 ^ e \<le> x < 2 ^ (e + 1)\<close>; the doubles around \<open>x\<close> are the multiples of
  \<open>2 ^ (e - 52)\<close>, and of \<open>2 ^ - 1074\<close> below the normal range; \<open>x\<close> is rounded to the
  nearest of them, to the one with the even significand on a tie, and to an infinity
  when the result reaches \<open>2 ^ 1024\<close>.
\<close>

function ilog2 :: "int \<Rightarrow> int" where
  "ilog2 n = (if n < 2 then 0 else ilog2 (n div 2) + 1)"
  by pat_completeness auto

termination
  by (relation "measure nat") auto

definition binade :: "rat \<Rightarrow> int" where
  "binade x = (if 1 \<le> x then ilog2 \<lfloor>x\<rfloor> else - (ilog2 (\<lceil>1 / x\<rceil> - 1) + 1))"

definition round_half_even :: "rat \<Rightarrow> int" where
  "round_half_even t =
     (let f = \<lfloor>t\<rfloor>; r = t - of_int f
      in if r < 1 / 2 then f else if 1 / 2 < r then f + 1 else if even f then f else f + 1)"

definition ulp :: "rat \<Rightarrow> rat" where
  "ulp x = 2 powi (max (binade x) (- 1022) - 52)"

definition nearest :: "rat \<Rightarrow> rat" where
  "nearest x = of_int (round_half_even (x / ulp x)) * ulp x"

definition binary64 :: "rat \<Rightarrow> jsnum" where
  "binary64 x =
     (if x = 0 then Num 0
      else if 0 < x then (if 2 ^ 1024 \<le> nearest x then PosInf else Num (nearest x))
      else (if 2 ^ 1024 \<le> nearest (- x) then NegInf else Num (- nearest (- x))))"

text \<open>The double a value stands for.\<close>

fun js_double :: "jsnum \<Rightarrow> jsnum" where
  "js_double (Num x) = binary64 x"
| "js_double NaN = NaN"
| "js_double PosInf = PosInf"
| "js_double NegInf = NegInf"

text \<open>\<open>a / n\<close> for a finite \<open>a\<close> and an array length \<open>n\<close>: \<open>0 / 0\<close> is NaN and
  \<open>a / 0\<close> is an infinity with the sign of \<open>a\<close>; nothing is thrown. The sum that
  \<open>calculateIndex\<close> divides and the quotient are kept as the exact rationals: the
  rounding of the additions and of the division is left out.\<close>

definition js_div_length :: "rat \<Rightarrow> nat \<Rightarrow> jsnum" where
  "js_div_length a n =
     (if n = 0 then (if a = 0 then NaN else if 0 < a then PosInf else NegInf)
      else Num (a / of_nat n))"

text \<open>
  \<open>a - b\<close>: the difference of the two doubles, rounded to the nearest double. The
  difference of two doubles need not be a double, so \<open>a - b > 20\<close> is a statement about
  the rounded difference.
\<close>

fun minus_double :: "jsnum \<Rightarrow> jsnum \<Rightarrow> jsnum" where
  "minus_double (Num a) (Num b) = Num (a - b)"
| "minus_double NaN _ = NaN"
| "minus_double _ NaN = NaN"
| "minus_double PosInf PosInf = NaN"
| "minus_double NegInf NegInf = NaN"
| "minus_double PosInf _ = PosInf"
| "minus_double NegInf _ = NegInf"
| "minus_double (Num a) PosInf = NegInf"
| "minus_double (Num a) NegInf = PosInf"

definition js_sub :: "jsnum \<Rightarrow> jsnum \<Rightarrow> jsnum" where
  "js_sub a b = js_double (minus_double (js_double a) (js_double b))"

text \<open>Comparison with a constant that is itself a double (\<open>20\<close>, \<open>70\<close>, \<open>55\<close>); every
  comparison with NaN is false.\<close>

fun gt_double :: "jsnum \<Rightarrow> rat \<Rightarrow> bool" where
  "gt_double (Num a) c = (c < a)"
| "gt_double NaN c = False"
| "gt_double PosInf c = True"
| "gt_double NegInf c = False"

fun lt_double :: "jsnum \<Rightarrow> rat \<Rightarrow> bool" where
  "lt_double (Num a) c = (a < c)"
| "lt_double NaN c = False"
| "lt_double PosInf c = False"
| "lt_double NegInf c = True"

definition js_gt :: "jsnum \<Rightarrow> rat \<Rightarrow> bool" where
  "js_gt a c = gt_double (js_double a) c"

definition js_lt :: "jsnum \<Rightarrow> rat \<Rightarrow> bool" where
  "js_lt a c = lt_double (js_double a) c"

text \<open>
  \<open>parseFloat(x.toFixed(2))\<close>: \<open>toFixed\<close> picks the integer \<open>n\<close> with \<open>n / 100\<close> closest
  to \<open>x\<close>, the larger one in magnitude on a tie; from \<open>10^21\<close> on it prints the number
  itself, and NaN and the infinities print as their names, which \<open>parseFloat\<close> reads back.
  The same rounding is what a \<open>DECIMAL(5,2)\<close> column applies.
\<close>

definition round_half_away :: "rat \<Rightarrow> int" where
  "round_half_away x = (if 0 \<le> x then \<lfloor>x + 1 / 2\<rfloor> else - \<lfloor>- x + 1 / 2\<rfloor>)"

definition round2 :: "rat \<Rightarrow> rat" where
  "round2 x = of_int (round_half_away (x * 100)) / 100"

fun parseFloat_toFixed2 :: "jsnum \<Rightarrow> jsnum" where
  "parseFloat_toFixed2 (Num x) = (if 10 ^ 21 \<le> \<bar>x\<bar> then Num x else Num (round2 x))"
| "parseFloat_toFixed2 NaN = NaN"
| "parseFloat_toFixed2 PosInf = PosInf"
| "parseFloat_toFixed2 NegInf = NegInf"

text \<open>\<open>JSON.stringify\<close> writes NaN and the infinities as \<open>null\<close>.\<close>

fun json_number :: "jsnum \<Rightarrow> rat option" where
  "json_number (Num x) = Some x"
| "json_number NaN = None"
| "json_number PosInf = None"
| "json_number NegInf = None"

text \<open>A value read back from JSON is \<open>null\<close> or a finite number; in arithmetic and in
  comparisons \<open>null\<close> counts as \<open>0\<close>.\<close>

fun to_number :: "rat option \<Rightarrow> jsnum" where
  "to_number None = Num 0"
| "to_number (Some x) = Num x"

section \<open>Upstream payload\<close>

text \<open>The field \<open>current_popularity\<close> of a location record: absent, \<open>null\<close>, or a number.\<close>

datatype popularity = Absent | Null | Pop rat

record location =
  current_popularity :: popularity

text \<open>\<open>loc.current_popularity || 0\<close>\<close>

fun popularity_or_zero :: "location \<Rightarrow> rat" where
  "popularity_or_zero loc =
     (case current_popularity loc of Absent \<Rightarrow> 0 | Null \<Rightarrow> 0 | Pop x \<Rightarrow> (if x = 0 then 0 else x))"

text \<open>The value of \<open>json.data\<close>: a falsy value (\<open>undefined\<close>, \<open>null\<close>, \<open>0\<close>, \<open>""\<close>,
  \<open>false\<close>), a truthy value that is not an array, or an array of location records.\<close>

datatype payload = Falsy | NotArray | Arr "location list"

datatype error =
    FetchFailed
  | InvalidApiResponse
  | InvalidDataArray
  | TypeError
  | NotNullViolation
  | NumericOverflow
  | UniqueViolation

section \<open>Metric aggregator\<close>

text \<open>\<open>calculateIndex\<close> of \<open>scripts/collect.js\<close>, \<open>scripts/continuous.js\<close> and
  \<open>api/collect.js\<close>, on an array: \<open>map\<close>, \<open>reduce\<close> from \<open>0\<close>, division by the length.\<close>

definition calculateIndex :: "location list \<Rightarrow> jsnum" where
  "calculateIndex data =
     (let pops = map popularity_or_zero data
      in js_div_length (foldl (+) 0 pops) (length pops))"

text \<open>\<open>calculateIndex\<close> of \<open>scripts/collect-manual.js\<close>, which first rejects a value that
  is falsy or not an array.\<close>

fun calculateIndex_manual :: "payload \<Rightarrow> error + jsnum" where
  "calculateIndex_manual Falsy = Inl InvalidDataArray"
| "calculateIndex_manual NotArray = Inl InvalidDataArray"
| "calculateIndex_manual (Arr data) = Inr (calculateIndex data)"

section \<open>Time classifier\<close>

text \<open>
  \<open>getDCTimeInfo\<close> reads the hour and the weekday of the instant in the time zone
  America/New\_York through the platform (\<open>toLocaleString\<close>, \<open>getHours\<close>, \<open>getDay\<close>).
  The platform's answer is the parameter \<open>tz\<close>; the flags are computed from it.
\<close>

record dc_info =
  hour :: nat
  weekday :: nat
  isOvertime :: bool
  isWeekend :: bool

definition getDCTimeInfo :: "('t \<Rightarrow> nat \<times> nat) \<Rightarrow> 't \<Rightarrow> dc_info" where
  "getDCTimeInfo tz date =
     (let h = fst (tz date); wd = snd (tz date)
      in \<lparr>hour = h, weekday = wd,
          isOvertime = (18 \<le> h \<or> h < 6),
          isWeekend = (wd = 0 \<or> wd = 6)\<rparr>)"

section \<open>Instants and their ISO form\<close>

text \<open>
  An instant is kept by its UTC calendar fields, which is what \<open>toISOString\<close> prints:
  \<open>YYYY-MM-DDTHH:mm:ss.sssZ\<close>, and \<open>+YYYYYY-MM-DDTHH:mm:ss.sssZ\<close> after the year 9999.
\<close>

record instant =
  utc_year :: nat
  utc_month :: nat
  utc_day :: nat
  utc_hour :: nat
  utc_minute :: nat
  utc_second :: nat
  utc_ms :: nat

definition digit :: "nat \<Rightarrow> char" where
  "digit d = ''0123456789'' ! (d mod 10)"

definition pad2 :: "nat \<Rightarrow> string" where
  "pad2 n = [digit (n div 10), digit n]"

definition pad3 :: "nat \<Rightarrow> string" where
  "pad3 n = digit (n div 100) # pad2 n"

definition pad4 :: "nat \<Rightarrow> string" where
  "pad4 n = digit (n div 1000) # pad3 n"

definition pad6 :: "nat \<Rightarrow> string" where
  "pad6 n = digit (n div 100000) # digit (n div 10000) # pad4 n"

definition toISOString :: "instant \<Rightarrow> string" where
  "toISOString t =
     (if utc_year t \<le> 9999 then pad4 (utc_year t) else CHR ''+'' # pad6 (utc_year t))
     @ ''-'' @ pad2 (utc_month t) @ ''-'' @ pad2 (utc_day t)
     @ ''T'' @ pad2 (utc_hour t) @ '':'' @ pad2 (utc_minute t)
     @ '':'' @ pad2 (utc_second t) @ ''.'' @ pad3 (utc_ms t) @ ''Z''"

text \<open>The instants whose ISO form has the four-digit year.\<close>

definition valid_instant :: "instant \<Rightarrow> bool" where
  "valid_instant t \<longleftrightarrow>
     utc_year t \<le> 9999 \<and> 1 \<le> utc_month t \<and> utc_month t \<le> 12
     \<and> 1 \<le> utc_day t \<and> utc_day t \<le> 31 \<and> utc_hour t < 24
     \<and> utc_minute t < 60 \<and> utc_second t < 60 \<and> utc_ms t < 1000"

text \<open>The minute bucket: \<open>DATE_TRUNC('minute', timestamp)\<close>.\<close>

definition date_trunc_minute :: "instant \<Rightarrow> instant" where
  "date_trunc_minute t = t\<lparr>utc_second := 0, utc_ms := 0\<rparr>"

text \<open>A key that orders valid instants chronologically, for \<open>ORDER BY timestamp\<close>.\<close>

definition ts_key :: "instant \<Rightarrow> nat" where
  "ts_key t =
     (((((utc_year t * 13 + utc_month t) * 32 + utc_day t) * 24 + utc_hour t) * 60
        + utc_minute t) * 60 + utc_second t) * 1000 + utc_ms t"

section \<open>Readings and spikes\<close>

text \<open>
  One shape for the two backends: in the data file a timestamp is a string and a number
  is what JSON holds (\<open>null\<close> or a finite number); in the database a timestamp is an
  instant and \<open>index_value\<close> is a \<open>DECIMAL(5,2) NOT NULL\<close>.
\<close>

record ('t, 'v) reading =
  timestamp :: 't
  index_value :: 'v
  dc_hour :: nat
  dc_weekday :: nat
  is_overtime :: bool
  is_weekend :: bool

record ('t, 'v) spike =
  spike_timestamp :: 't
  index_from :: 'v
  index_to :: 'v
  change_amount :: 'v
  spike_is_overtime :: bool
  spike_is_weekend :: bool

text \<open>The parsed response of the upstream API, \<open>None\<close> when \<open>fetch\<close> or
  \<open>response.json()\<close> throws.\<close>

record api_json =
  success :: bool
  data :: payload

datatype 'a status = Success 'a | Skipped | Error error

text \<open>\<open>xs.slice(-n)\<close>\<close>

definition slice_last :: "nat \<Rightarrow> 'a list \<Rightarrow> 'a list" where
  "slice_last n xs = drop (length xs - n) xs"

section \<open>Flat-file backend: \<open>scripts/collect-manual.js\<close>\<close>

record readings_file =
  readings :: "(string, rat option) reading list"
  spikes :: "(string, rat option) spike list"
  lastUpdate :: "string option"

text \<open>The data file: not there, there but not JSON, or a document of the expected shape
  (an object with the arrays \<open>readings\<close> and \<open>spikes\<close>; other JSON values are left out).\<close>

datatype data_file = Missing | Unparseable | Stored readings_file

text \<open>Lines 69--76: the default database stays when reading or parsing throws.\<close>

fun load :: "data_file \<Rightarrow> readings_file" where
  "load Missing = \<lparr>readings = [], spikes = [], lastUpdate = None\<rparr>"
| "load Unparseable = \<lparr>readings = [], spikes = [], lastUpdate = None\<rparr>"
| "load (Stored db) = db"

text \<open>Lines 89--90: the last stored timestamp, when there is one and it is not the
  empty string, against the first 16 characters of the new one.\<close>

definition duplicate_minute :: "readings_file \<Rightarrow> string \<Rightarrow> bool" where
  "duplicate_minute db ts =
     (readings db \<noteq> []
      \<and> timestamp (last (readings db)) \<noteq> []
      \<and> take 16 (timestamp (last (readings db))) = take 16 ts)"

text \<open>
  Lines 96--116. \<open>prev\<close> is the stored value of the last reading; \<open>null\<close> counts as \<open>0\<close>
  in the subtraction and the comparison, and \<open>prev.toFixed(0)\<close> in the log line throws a
  TypeError on it. The result is the flag \<open>spikeDetected\<close> and the spikes list.
\<close>

definition check_spike ::
  "readings_file \<Rightarrow> (string, jsnum) reading \<Rightarrow> error + bool \<times> (string, rat option) spike list"
where
  "check_spike db newReading =
     (if readings db \<noteq> [] then
        (let prev = index_value (last (readings db));
             change = js_sub (index_value newReading) (to_number prev)
         in if js_gt change 20
               \<or> (js_gt (index_value newReading) 70 \<and> js_lt (to_number prev) 55)
            then (if prev = None then Inl TypeError
                  else
                    (let pushed = spikes db @
                           [\<lparr>spike_timestamp = timestamp newReading,
                             index_from = prev,
                             index_to = json_number (index_value newReading),
                             change_amount = json_number change,
                             spike_is_overtime = is_overtime newReading,
                             spike_is_weekend = is_weekend newReading\<rparr>]
                     in Inr (True, if 100 < length pushed then slice_last 100 pushed
                                   else pushed)))
            else Inr (False, spikes db))
      else Inr (False, spikes db))"

text \<open>Lines 79--86: the new reading, stamped with \<open>now\<close> and carrying the index rounded
  to two places.\<close>

definition new_reading :: "instant \<Rightarrow> jsnum \<Rightarrow> dc_info \<Rightarrow> (string, jsnum) reading" where
  "new_reading now index dcInfo =
     \<lparr>timestamp = toISOString now,
      index_value = parseFloat_toFixed2 index,
      dc_hour = hour dcInfo, dc_weekday = weekday dcInfo,
      is_overtime = isOvertime dcInfo, is_weekend = isWeekend dcInfo\<rparr>"

text \<open>What \<open>JSON.stringify\<close> writes for a reading held in memory.\<close>

definition stored_reading :: "(string, jsnum) reading \<Rightarrow> (string, rat option) reading" where
  "stored_reading r =
     \<lparr>timestamp = timestamp r, index_value = json_number (index_value r),
      dc_hour = dc_hour r, dc_weekday = dc_weekday r,
      is_overtime = is_overtime r, is_weekend = is_weekend r\<rparr>"

text \<open>Lines 119--127 and the write of line 130.\<close>

definition append_reading ::
  "readings_file \<Rightarrow> (string, rat option) spike list \<Rightarrow> (string, jsnum) reading \<Rightarrow> readings_file"
where
  "append_reading db spikes' newReading =
     (let pushed = readings db @ [stored_reading newReading]
      in \<lparr>readings = (if 10000 < length pushed then slice_last 10000 pushed else pushed),
          spikes = spikes',
          lastUpdate = Some (timestamp newReading)\<rparr>)"

text \<open>
  \<open>collect\<close> of \<open>scripts/collect-manual.js\<close>. \<open>now\<close> is the clock sample of line 49,
  \<open>dc_now\<close> the one \<open>getDCTimeInfo()\<close> takes. The result is the returned status (with the
  rounded index, the spike flag and the number of readings) and the data file afterwards.
\<close>

definition collect_manual ::
  "(instant \<Rightarrow> nat \<times> nat) \<Rightarrow> instant \<Rightarrow> instant \<Rightarrow> api_json option \<Rightarrow> data_file
     \<Rightarrow> (jsnum \<times> bool \<times> nat) status \<times> data_file"
where
  "collect_manual tz now dc_now response file =
     (case response of
        None \<Rightarrow> (Error FetchFailed, file)
      | Some json \<Rightarrow>
          if \<not> success json \<or> data json = Falsy then (Error InvalidApiResponse, file)
          else
            (case calculateIndex_manual (data json) of
               Inl e \<Rightarrow> (Error e, file)
             | Inr index \<Rightarrow>
                 (let dcInfo = getDCTimeInfo tz dc_now;
                      db = load file;
                      newReading = new_reading now index dcInfo
                  in if duplicate_minute db (timestamp newReading) then (Skipped, file)
                     else
                       (case check_spike db newReading of
                          Inl e \<Rightarrow> (Error e, file)
                        | Inr (spikeDetected, spikes') \<Rightarrow>
                            (let db' = append_reading db spikes' newReading
                             in (Success (parseFloat_toFixed2 index, spikeDetected,
                                          length (readings db')),
                                 Stored db'))))))"

text \<open>A sequence of ticks, each with its clock samples and its response.\<close>

fun run_manual ::
  "(instant \<Rightarrow> nat \<times> nat) \<Rightarrow> (instant \<times> instant \<times> api_json option) list \<Rightarrow> data_file
     \<Rightarrow> data_file"
where
  "run_manual tz [] file = file"
| "run_manual tz ((now, dc_now, response) # ticks) file =
     run_manual tz ticks (snd (collect_manual tz now dc_now response file))"

section \<open>Database backend: \<open>supabase-schema.sql\<close>\<close>

text \<open>
  The two tables the collectors write. A row of \<open>pizza_readings\<close> holds the instant and
  the index as \<open>DECIMAL(5,2) NOT NULL\<close>; the columns of \<open>pizza_spikes\<close> may be null.
  The columns \<open>id\<close>, \<open>created_at\<close>, \<open>raw_data\<close> and \<open>notes\<close> play no part here.
\<close>

record database =
  pizza_readings :: "(instant, rat) reading list"
  pizza_spikes :: "(instant, rat option) spike list"

text \<open>A JavaScript number sent to a \<open>DECIMAL(5,2)\<close> column: NaN and the infinities travel
  as \<open>null\<close>; a number is rounded to two places and must stay below \<open>1000\<close> in magnitude.\<close>

definition to_decimal_5_2 :: "jsnum \<Rightarrow> error + rat option" where
  "to_decimal_5_2 v =
     (case json_number v of
        None \<Rightarrow> Inr None
      | Some x \<Rightarrow> if 1000 \<le> \<bar>round2 x\<bar> then Inl NumericOverflow else Inr (Some (round2 x)))"

text \<open>
  \<open>INSERT INTO pizza_readings\<close>, with the \<open>NOT NULL\<close> constraint on \<open>index_value\<close>.
  The schema goes on with
  \<open>CREATE UNIQUE INDEX idx_readings_unique_minute ON pizza_readings(DATE_TRUNC('minute', timestamp))\<close>.
  On a \<open>TIMESTAMPTZ\<close> column \<open>DATE_TRUNC\<close> depends on the time zone of the session,
  PostgreSQL takes only immutable functions in an index expression, and it rejects the
  statement (error \<open>42P17\<close>). The table therefore has no unique index: a row in a minute
  that already has one is stored, and no insert is answered with the error \<open>23505\<close>
  that the collectors look for.
\<close>

definition insert_reading :: "database \<Rightarrow> (instant, jsnum) reading \<Rightarrow> error + database" where
  "insert_reading db r =
     (case to_decimal_5_2 (index_value r) of
        Inl e \<Rightarrow> Inl e
      | Inr None \<Rightarrow> Inl NotNullViolation
      | Inr (Some x) \<Rightarrow>
          Inr (db\<lparr>pizza_readings := pizza_readings db @
                    [\<lparr>timestamp = timestamp r, index_value = x,
                      dc_hour = dc_hour r, dc_weekday = dc_weekday r,
                      is_overtime = is_overtime r, is_weekend = is_weekend r\<rparr>]\<rparr>))"

text \<open>\<open>INSERT INTO pizza_spikes\<close>; the collectors do not look at its outcome, so a rejected
  row leaves the table as it was.\<close>

definition insert_spike :: "database \<Rightarrow> (instant, jsnum) spike \<Rightarrow> database" where
  "insert_spike db s =
     (case (to_decimal_5_2 (index_from s), to_decimal_5_2 (index_to s),
            to_decimal_5_2 (change_amount s)) of
        (Inr f, Inr t, Inr c) \<Rightarrow>
          db\<lparr>pizza_spikes := pizza_spikes db @
               [\<lparr>spike_timestamp = spike_timestamp s, index_from = f, index_to = t,
                 change_amount = c, spike_is_overtime = spike_is_overtime s,
                 spike_is_weekend = spike_is_weekend s\<rparr>]\<rparr>
      | _ \<Rightarrow> db)"

text \<open>\<open>select('index_value').order('timestamp', {ascending: false}).limit(n)\<close>\<close>

definition select_latest :: "nat \<Rightarrow> database \<Rightarrow> rat list" where
  "select_latest n db =
     map index_value (take n (rev (sort_key (\<lambda>row. ts_key (timestamp row)) (pizza_readings db))))"

section \<open>Database collectors: \<open>scripts/collect.js\<close>, \<open>api/collect.js\<close>, \<open>scripts/continuous.js\<close>\<close>

text \<open>The clock samples of one tick: the one \<open>getDCTimeInfo()\<close> takes, the one written as
  the reading's timestamp, and the one written as a spike's timestamp.\<close>

record clock =
  t_dc :: instant
  t_insert :: instant
  t_spike :: instant

text \<open>The object handed to \<open>insert\<close> on \<open>pizza_readings\<close>.\<close>

definition reading_object :: "instant \<Rightarrow> jsnum \<Rightarrow> dc_info \<Rightarrow> (instant, jsnum) reading" where
  "reading_object now index dcInfo =
     \<lparr>timestamp = now, index_value = index,
      dc_hour = hour dcInfo, dc_weekday = weekday dcInfo,
      is_overtime = isOvertime dcInfo, is_weekend = isWeekend dcInfo\<rparr>"

text \<open>The spike object of the three database collectors.\<close>

definition spike_object ::
  "instant \<Rightarrow> rat \<Rightarrow> jsnum \<Rightarrow> jsnum \<Rightarrow> dc_info \<Rightarrow> (instant, jsnum) spike"
where
  "spike_object now prev currentIndex change dcInfo =
     \<lparr>spike_timestamp = now,
      index_from = Num prev,
      index_to = currentIndex,
      change_amount = change,
      spike_is_overtime = isOvertime dcInfo,
      spike_is_weekend = isWeekend dcInfo\<rparr>"

text \<open>
  \<open>detectSpike\<close> of \<open>scripts/collect.js\<close> and \<open>api/collect.js\<close>: it reads the latest row
  of \<open>pizza_readings\<close> and compares the current index with it. \<open>now\<close> is its own clock
  sample (\<open>new Date().toISOString()\<close>). The query is taken to answer; on an empty answer
  the function returns \<open>null\<close>.
\<close>

definition detectSpike ::
  "database \<Rightarrow> instant \<Rightarrow> jsnum \<Rightarrow> dc_info \<Rightarrow> (instant, jsnum) spike option"
where
  "detectSpike db now currentIndex dcInfo =
     (case select_latest 1 db of
        [] \<Rightarrow> None
      | prev # _ \<Rightarrow>
          (let change = js_sub currentIndex (Num prev)
           in if js_gt change 20 \<or> (js_gt currentIndex 70 \<and> js_lt (Num prev) 55)
              then Some (spike_object now prev currentIndex change dcInfo)
              else None))"

text \<open>
  \<open>collect\<close> of \<open>scripts/collect.js\<close>, which \<open>collectData\<close> of \<open>api/collect.js\<close> repeats
  statement by statement (its result carries one more clock sample): fetch, index,
  classification, insert of the reading, and only then \<open>detectSpike\<close>. An insert
  answered with the error \<open>23505\<close> is reported as skipped, any other error as an error.
  A \<open>data\<close> that is not an array makes \<open>data.map\<close> a TypeError. The result is the
  returned status, with the index and the spike flag, and the tables afterwards.
\<close>

definition collect ::
  "(instant \<Rightarrow> nat \<times> nat) \<Rightarrow> clock \<Rightarrow> api_json option \<Rightarrow> database
     \<Rightarrow> (jsnum \<times> bool) status \<times> database"
where
  "collect tz clk response db =
     (case response of
        None \<Rightarrow> (Error FetchFailed, db)
      | Some json \<Rightarrow>
          if \<not> success json \<or> data json = Falsy then (Error InvalidApiResponse, db)
          else
            (case data json of
               Arr locs \<Rightarrow>
                 (let index = calculateIndex locs;
                      dcInfo = getDCTimeInfo tz (t_dc clk)
                  in case insert_reading db (reading_object (t_insert clk) index dcInfo) of
                       Inl e \<Rightarrow> (if e = UniqueViolation then (Skipped, db) else (Error e, db))
                     | Inr db1 \<Rightarrow>
                         (case detectSpike db1 (t_spike clk) index dcInfo of
                            Some spike \<Rightarrow> (Success (index, True), insert_spike db1 spike)
                          | None \<Rightarrow> (Success (index, False), db1)))
             | _ \<Rightarrow> (Error TypeError, db)))"

text \<open>
  \<open>collect\<close> of \<open>scripts/continuous.js\<close>: the same up to the insert; the spike check then
  reads the two latest rows and compares with the second one. It returns nothing; the
  status stands for the line it logs.
\<close>

definition collect_continuous ::
  "(instant \<Rightarrow> nat \<times> nat) \<Rightarrow> clock \<Rightarrow> api_json option \<Rightarrow> database
     \<Rightarrow> (jsnum \<times> bool) status \<times> database"
where
  "collect_continuous tz clk response db =
     (case response of
        None \<Rightarrow> (Error FetchFailed, db)
      | Some json \<Rightarrow>
          if \<not> success json \<or> data json = Falsy then (Error InvalidApiResponse, db)
          else
            (case data json of
               Arr locs \<Rightarrow>
                 (let index = calculateIndex locs;
                      dcInfo = getDCTimeInfo tz (t_dc clk)
                  in case insert_reading db (reading_object (t_insert clk) index dcInfo) of
                       Inl e \<Rightarrow> (if e = UniqueViolation then (Skipped, db) else (Error e, db))
                     | Inr db1 \<Rightarrow>
                         (case select_latest 2 db1 of
                            _ # prev # _ \<Rightarrow>
                              (let change = js_sub index (Num prev)
                               in if js_gt change 20
                                     \<or> (js_gt index 70 \<and> js_lt (Num prev) 55)
                                  then (Success (index, True),
                                        insert_spike db1
                                          (spike_object (t_spike clk) prev index change dcInfo))
                                  else (Success (index, False), db1))
                          | _ \<Rightarrow> (Success (index, False), db1)))
             | _ \<Rightarrow> (Error TypeError, db)))"

section \<open>Example data\<close>

text \<open>
  Concrete inputs for the worked instances below: instants of 19 January 2026 (a Monday;
  New York is five hours behind UTC on that day), responses of the upstream API with
  given popularities, the three clock samples of a tick of the database collectors, and
  stored readings.
\<close>

definition jan19 :: "nat \<Rightarrow> nat \<Rightarrow> nat \<Rightarrow> nat \<Rightarrow> instant" where
  "jan19 h m s ms =
     \<lparr>utc_year = 2026, utc_month = 1, utc_day = 19, utc_hour = h, utc_minute = m,
      utc_second = s, utc_ms = ms\<rparr>"

definition eastern_standard :: "instant \<Rightarrow> nat \<times> nat" where
  "eastern_standard t = ((utc_hour t + 19) mod 24, if utc_hour t < 5 then 0 else 1)"

definition upstream :: "rat list \<Rightarrow> api_json option" where
  "upstream pops = Some \<lparr>success = True, data = Arr (map (\<lambda>p. \<lparr>current_popularity = Pop p\<rparr>) pops)\<rparr>"

definition clock_at :: "nat \<Rightarrow> nat \<Rightarrow> clock" where
  "clock_at h m = \<lparr>t_dc = jan19 h m 0 50, t_insert = jan19 h m 0 120, t_spike = jan19 h m 0 345\<rparr>"

definition one_reading :: "'t \<Rightarrow> 'v \<Rightarrow> ('t, 'v) reading" where
  "one_reading t v = \<lparr>timestamp = t, index_value = v, dc_hour = 4, dc_weekday = 1,
                      is_overtime = True, is_weekend = False\<rparr>"

definition example_info :: dc_info where
  "example_info = getDCTimeInfo eastern_standard (jan19 9 10 0 50)"

definition db_with_last :: "rat \<Rightarrow> database" where
  "db_with_last x = \<lparr>pizza_readings = [one_reading (jan19 9 0 0 120) x], pizza_spikes = []\<rparr>"

definition file_with_last :: "rat \<Rightarrow> readings_file" where
  "file_with_last x =
     \<lparr>readings = [one_reading ''2026-01-19T09:00:00.120Z'' (Some x)], spikes = [],
      lastUpdate = Some ''2026-01-19T09:00:00.120Z''\<rparr>"

definition spike_10_80 :: "(instant, rat option) spike" where
  "spike_10_80 =
     \<lparr>spike_timestamp = jan19 9 10 0 345, index_from = Some 10, index_to = Some 80,
      change_amount = Some 70, spike_is_overtime = True, spike_is_weekend = False\<rparr>"

definition after_first_tick :: data_file where
  "after_first_tick =
     Stored \<lparr>readings = [one_reading ''2026-01-19T09:00:00.000Z'' (Some 10)],
             spikes = [],
             lastUpdate = Some ''2026-01-19T09:00:00.000Z''\<rparr>"

definition after_second_tick :: data_file where
  "after_second_tick =
     Stored \<lparr>readings = [one_reading ''2026-01-19T09:00:00.000Z'' (Some 10),
                         one_reading ''2026-01-19T09:10:00.000Z'' (Some 80)],
             spikes = [\<lparr>spike_timestamp = ''2026-01-19T09:10:00.000Z'',
                        index_from = Some 10, index_to = Some 80, change_amount = Some 70,
                        spike_is_overtime = True, spike_is_weekend = False\<rparr>],
             lastUpdate = Some ''2026-01-19T09:10:00.000Z''\<rparr>"

section \<open>Auxiliary facts\<close>

subsection \<open>Numbers\<close>

lemma foldl_plus_sum_list: "foldl (+) a xs = a + sum_list (xs :: rat list)"
  by (induction xs arbitrary: a) (simp_all add: add.assoc)

lemma floor_rat_numeral: "\<lfloor>(numeral a / numeral b :: rat)\<rfloor> = numeral a div numeral b"
  using floor_divide_of_int_eq [of "numeral a" "numeral b", where ?'a = rat] by simp

lemma round_half_away_close:
  "x - of_int (round_half_away x) \<le> 1 / 2 \<and> of_int (round_half_away x) - x \<le> 1 / 2"
proof (cases "0 \<le> x")
  case True
  have a: "of_int \<lfloor>x + 1 / 2\<rfloor> \<le> x + 1 / 2" by (rule of_int_floor_le)
  have b: "x + 1 / 2 < of_int \<lfloor>x + 1 / 2\<rfloor> + 1" by linarith
  have eq: "round_half_away x = \<lfloor>x + 1 / 2\<rfloor>"
    using True by (simp add: round_half_away_def)
  show ?thesis unfolding eq using a b by linarith
next
  case False
  have a: "of_int \<lfloor>- x + 1 / 2\<rfloor> \<le> - x + 1 / 2" by (rule of_int_floor_le)
  have b: "- x + 1 / 2 < of_int \<lfloor>- x + 1 / 2\<rfloor> + 1" by linarith
  have eq: "of_int (round_half_away x) = - (of_int \<lfloor>- x + 1 / 2\<rfloor> :: rat)"
    using False by (simp add: round_half_away_def)
  show ?thesis unfolding eq using a b by linarith
qed

lemma round2_close: "x - round2 x \<le> 1 / 200 \<and> round2 x - x \<le> 1 / 200"
proof -
  have "x * 100 - of_int (round_half_away (x * 100)) \<le> 1 / 2
      \<and> of_int (round_half_away (x * 100)) - x * 100 \<le> 1 / 2"
    by (rule round_half_away_close)
  then show ?thesis unfolding round2_def by linarith
qed

lemma to_decimal_5_2_Inl: "to_decimal_5_2 v = Inl e \<Longrightarrow> e = NumericOverflow"
  by (auto simp: to_decimal_5_2_def split: option.splits if_splits)

declare ilog2.simps [simp del]

subsection \<open>Powers of two\<close>

lemma p2_pos: "0 < (2::rat) powi e"
  by (simp add: zero_less_power_int)

lemma p2_less_iff: "(2::rat) powi a < 2 powi b \<longleftrightarrow> a < b"
proof
  assume lt: "(2::rat) powi a < 2 powi b"
  show "a < b"
  proof (rule ccontr)
    assume "\<not> a < b"
    then have "b \<le> a" by simp
    then have "(2::rat) powi b \<le> 2 powi a" by (rule power_int_increasing) simp
    with lt show False by simp
  qed
next
  assume "a < b"
  then show "(2::rat) powi a < 2 powi b" by (rule power_int_strict_increasing) simp
qed

lemma p2_le_iff: "(2::rat) powi a \<le> 2 powi b \<longleftrightarrow> a \<le> b"
  using p2_less_iff [of b a] by (simp add: not_less [symmetric])

lemma p2_nat: "0 \<le> e \<Longrightarrow> (2::rat) powi e = 2 ^ nat e"
  by (rule power_int_nonneg_exp)

subsection \<open>The binade\<close>

lemma ilog2_nonneg: "0 \<le> ilog2 n"
proof (induction n rule: ilog2.induct)
  case (1 n)
  then show ?case by (subst ilog2.simps) simp
qed

lemma ilog2_bounds:
  "1 \<le> n \<Longrightarrow> 2 ^ nat (ilog2 n) \<le> n \<and> n < 2 * 2 ^ nat (ilog2 n)"
proof (induction n rule: ilog2.induct)
  case (1 n)
  show ?case
  proof (cases "n < 2")
    case True
    with "1.prems" have n: "n = 1" by simp
    have "ilog2 n = 0" using True by (subst ilog2.simps) simp
    then show ?thesis by (simp add: n)
  next
    case False
    then have "1 \<le> n div 2" by simp
    from "1.IH" [OF False this]
    have IH: "2 ^ nat (ilog2 (n div 2)) \<le> n div 2"
      "n div 2 < 2 * 2 ^ nat (ilog2 (n div 2))"
      by simp_all
    define k :: int where "k = 2 ^ nat (ilog2 (n div 2))"
    have eq: "ilog2 n = ilog2 (n div 2) + 1" using False by (subst ilog2.simps) simp
    have "nat (ilog2 n) = Suc (nat (ilog2 (n div 2)))"
      using ilog2_nonneg [of "n div 2"] by (simp add: eq nat_add_distrib)
    then have p: "2 ^ nat (ilog2 n) = 2 * k" by (simp add: k_def)
    from IH have "k \<le> n div 2" "n div 2 < 2 * k" by (simp_all add: k_def)
    then have "2 * k \<le> n \<and> n < 2 * (2 * k)" by presburger
    then show ?thesis unfolding p .
  qed
qed

lemma ilog2_bounds_rat:
  assumes "1 \<le> n"
  shows "(2::rat) powi ilog2 n \<le> of_int n" "of_int n + 1 \<le> (2::rat) powi (ilog2 n + 1)"
proof -
  from ilog2_bounds [OF assms]
  have a: "2 ^ nat (ilog2 n) \<le> n" and b: "n + 1 \<le> 2 * 2 ^ nat (ilog2 n)" by simp_all
  have "(of_int (2 ^ nat (ilog2 n)) :: rat) \<le> of_int n" using a by (simp only: of_int_le_iff)
  then show "(2::rat) powi ilog2 n \<le> of_int n"
    by (simp add: p2_nat ilog2_nonneg)
  have "(of_int (n + 1) :: rat) \<le> of_int (2 * 2 ^ nat (ilog2 n))"
    using b by (simp only: of_int_le_iff)
  moreover have "nat (ilog2 n + 1) = Suc (nat (ilog2 n))"
    using ilog2_nonneg [of n] by (simp add: nat_add_distrib)
  ultimately show "of_int n + 1 \<le> (2::rat) powi (ilog2 n + 1)"
    using ilog2_nonneg [of n] by (simp add: p2_nat)
qed

lemma binade_bounds:
  assumes "0 < x"
  shows "2 powi binade x \<le> x" "x < 2 powi (binade x + 1)"
proof -
  have "2 powi binade x \<le> x \<and> x < 2 powi (binade x + 1)"
  proof (cases "1 \<le> x")
    case True
    then have n: "1 \<le> \<lfloor>x\<rfloor>" by simp
    have b: "binade x = ilog2 \<lfloor>x\<rfloor>" using True by (simp add: binade_def)
    have "of_int \<lfloor>x\<rfloor> \<le> x" "x < of_int \<lfloor>x\<rfloor> + 1" by linarith+
    with ilog2_bounds_rat [OF n] show ?thesis unfolding b by linarith
  next
    case False
    define y where "y = 1 / x"
    define m where "m = \<lceil>y\<rceil> - 1"
    from False assms have "1 < y" by (simp add: y_def)
    then have "1 < \<lceil>y\<rceil>" by (simp add: less_ceiling_iff)
    then have m1: "1 \<le> m" by (simp add: m_def)
    have b: "binade x = - (ilog2 m + 1)" using False by (simp add: binade_def m_def y_def)
    have cy: "y \<le> of_int m + 1" "of_int m < y"
      unfolding m_def by (simp_all add: le_of_int_ceiling) linarith
    from ilog2_bounds_rat [OF m1] cy
    have lo: "(2::rat) powi ilog2 m < y" and hi: "y \<le> 2 powi (ilog2 m + 1)"
      by linarith+
    have x: "x = 1 / y" using assms by (simp add: y_def)
    have ypos: "0 < y" using \<open>1 < y\<close> by simp
    have "2 powi (- (ilog2 m + 1)) \<le> x"
      unfolding x power_int_minus_divide
      using hi ypos p2_pos [of "ilog2 m + 1"] by (simp add: frac_le)
    moreover have "x < 2 powi (- ilog2 m)"
      unfolding x power_int_minus_divide
      using lo ypos p2_pos [of "ilog2 m"] by (simp add: frac_less2)
    ultimately show ?thesis unfolding b by simp
  qed
  then show "2 powi binade x \<le> x" "x < 2 powi (binade x + 1)" by simp_all
qed

lemma binade_unique:
  assumes "2 powi k \<le> x" "x < 2 powi (k + 1)"
  shows "binade x = k"
proof -
  have pos: "0 < x" using assms(1) p2_pos [of k] by linarith
  from binade_bounds [OF pos] assms
  have "(2::rat) powi binade x < 2 powi (k + 1)" "(2::rat) powi k < 2 powi (binade x + 1)"
    by linarith+
  then show ?thesis by (simp add: p2_less_iff)
qed

subsection \<open>Rounding to an integer\<close>

lemma round_half_even_cases:
  fixes t :: rat
  shows "(t - of_int \<lfloor>t\<rfloor> < 1 / 2 \<and> round_half_even t = \<lfloor>t\<rfloor>)
       \<or> (1 / 2 < t - of_int \<lfloor>t\<rfloor> \<and> round_half_even t = \<lfloor>t\<rfloor> + 1)
       \<or> (t - of_int \<lfloor>t\<rfloor> = 1 / 2 \<and> even \<lfloor>t\<rfloor> \<and> round_half_even t = \<lfloor>t\<rfloor>)
       \<or> (t - of_int \<lfloor>t\<rfloor> = 1 / 2 \<and> odd \<lfloor>t\<rfloor> \<and> round_half_even t = \<lfloor>t\<rfloor> + 1)"
  unfolding round_half_even_def Let_def by auto

lemma round_half_even_close:
  "t - of_int (round_half_even t) \<le> 1 / 2" "of_int (round_half_even t) - t \<le> 1 / 2"
proof -
  have fl: "of_int \<lfloor>t\<rfloor> \<le> t" "t < of_int \<lfloor>t\<rfloor> + 1" by linarith+
  from round_half_even_cases [of t]
  have "t - of_int (round_half_even t) \<le> 1 / 2 \<and> of_int (round_half_even t) - t \<le> 1 / 2"
  proof (elim disjE conjE)
    assume a: "t - of_int \<lfloor>t\<rfloor> < 1 / 2" and e: "round_half_even t = \<lfloor>t\<rfloor>"
    show ?thesis unfolding e using a fl by linarith
  next
    assume a: "1 / 2 < t - of_int \<lfloor>t\<rfloor>" and e: "round_half_even t = \<lfloor>t\<rfloor> + 1"
    have "of_int (\<lfloor>t\<rfloor> + 1) = (of_int \<lfloor>t\<rfloor> + 1 :: rat)" by simp
    then show ?thesis unfolding e using a fl by linarith
  next
    assume a: "t - of_int \<lfloor>t\<rfloor> = 1 / 2" and e: "round_half_even t = \<lfloor>t\<rfloor>"
    show ?thesis unfolding e using a fl by linarith
  next
    assume a: "t - of_int \<lfloor>t\<rfloor> = 1 / 2" and e: "round_half_even t = \<lfloor>t\<rfloor> + 1"
    have "of_int (\<lfloor>t\<rfloor> + 1) = (of_int \<lfloor>t\<rfloor> + 1 :: rat)" by simp
    then show ?thesis unfolding e using a fl by linarith
  qed
  then show "t - of_int (round_half_even t) \<le> 1 / 2" "of_int (round_half_even t) - t \<le> 1 / 2"
    by simp_all
qed

lemma round_half_even_of_int [simp]: "round_half_even (of_int k) = k"
  by (simp add: round_half_even_def)

lemma round_half_even_floor:
  "\<lfloor>t\<rfloor> \<le> round_half_even t" "round_half_even t \<le> \<lfloor>t\<rfloor> + 1"
  using round_half_even_cases [of t] by auto

lemma round_half_even_ge: "of_int k \<le> t \<Longrightarrow> k \<le> round_half_even t"
proof -
  assume "of_int k \<le> t"
  then have "k \<le> \<lfloor>t\<rfloor>" by (simp add: le_floor_iff)
  with round_half_even_floor(1) [of t] show ?thesis by simp
qed

lemma round_half_even_le: "t \<le> of_int k \<Longrightarrow> round_half_even t \<le> k"
proof -
  assume le: "t \<le> of_int k"
  show ?thesis
  proof (cases "t = of_int k")
    case True
    then show ?thesis by simp
  next
    case False
    with le have "t < of_int k" by simp
    then have "\<lfloor>t\<rfloor> < k" by (simp add: floor_less_iff)
    with round_half_even_floor(2) [of t] show ?thesis by simp
  qed
qed

lemma round_half_even_le_tie:
  assumes "t \<le> of_int k + 1 / 2" "even k"
  shows "round_half_even t \<le> k"
proof (cases "\<lfloor>t\<rfloor> < k")
  case True
  with round_half_even_floor(2) [of t] show ?thesis by simp
next
  case False
  have "t < of_int (k + 1)" using assms(1) by simp
  then have "\<lfloor>t\<rfloor> < k + 1" by (simp only: floor_less_iff)
  with False have f: "\<lfloor>t\<rfloor> = k" by simp
  from round_half_even_cases [of t] show ?thesis
    unfolding f using assms by auto
qed

lemma round_half_even_gt_half:
  assumes "of_int k + 1 / 2 < t"
  shows "k + 1 \<le> round_half_even t"
proof (cases "k < \<lfloor>t\<rfloor>")
  case True
  with round_half_even_floor(1) [of t] show ?thesis by simp
next
  case False
  have "of_int k \<le> t" using assms by linarith
  then have "k \<le> \<lfloor>t\<rfloor>" by (simp add: le_floor_iff)
  with False have f: "\<lfloor>t\<rfloor> = k" by simp
  from round_half_even_cases [of t] show ?thesis
    unfolding f using assms by auto
qed


subsection \<open>Rounding to a double\<close>

lemma ulp_pos: "0 < ulp x"
  by (simp add: ulp_def p2_pos)

lemma nearest_close: "x - nearest x \<le> ulp x / 2" "nearest x - x \<le> ulp x / 2"
proof -
  define u where "u = ulp x"
  define n :: rat where "n = of_int (round_half_even (x / u))"
  have u: "0 < u" unfolding u_def by (rule ulp_pos)
  from round_half_even_close [of "x / u"]
  have "x / u - n \<le> 1 / 2" "n - x / u \<le> 1 / 2" by (simp_all add: n_def)
  then have "(x / u - n) * u \<le> 1 / 2 * u" "(n - x / u) * u \<le> 1 / 2 * u"
    using u by (simp_all only: mult_le_cancel_right_pos)
  then have "x - n * u \<le> u / 2" "n * u - x \<le> u / 2"
    using u by (simp_all add: left_diff_distrib)
  then show "x - nearest x \<le> ulp x / 2" "nearest x - x \<le> ulp x / 2"
    by (simp_all add: nearest_def n_def u_def)
qed

lemma nearest_nonneg: "0 \<le> x \<Longrightarrow> 0 \<le> nearest x"
proof -
  assume "0 \<le> x"
  then have "of_int 0 \<le> x / ulp x" using ulp_pos [of x] by simp
  then have "0 \<le> round_half_even (x / ulp x)" by (rule round_half_even_ge)
  then show ?thesis using ulp_pos [of x] by (simp add: nearest_def)
qed

lemma ulp_le:
  assumes "0 < x" "x < 2 powi (k + 1)" "- 1022 \<le> k"
  shows "ulp x \<le> 2 powi (k - 52)"
proof -
  from binade_bounds(1) [OF assms(1)] assms(2) have "(2::rat) powi binade x < 2 powi (k + 1)"
    by linarith
  then have "binade x \<le> k" by (simp add: p2_less_iff)
  with assms(3) have "max (binade x) (- 1022) - 52 \<le> k - 52" by simp
  then show ?thesis unfolding ulp_def by (simp only: p2_le_iff)
qed

lemma ulp_ge:
  assumes "2 powi k \<le> x"
  shows "2 powi (k - 52) \<le> ulp x"
proof -
  have pos: "0 < x" using assms p2_pos [of k] by linarith
  from binade_bounds(2) [OF pos] assms have "(2::rat) powi k < 2 powi (binade x + 1)"
    by linarith
  then have "k \<le> binade x" by (simp add: p2_less_iff)
  then have "k - 52 \<le> max (binade x) (- 1022) - 52" by simp
  then show ?thesis unfolding ulp_def by (simp only: p2_le_iff)
qed

lemma ulp_binade:
  assumes "2 powi k \<le> x" "x < 2 powi (k + 1)" "- 1022 \<le> k"
  shows "ulp x = 2 powi (k - 52)"
  using binade_unique [OF assms(1,2)] assms(3) by (simp add: ulp_def max_def)

lemma nearest_small:
  assumes "0 < x" "x \<le> 1024"
  shows "nearest x < 2 ^ 1024" "x - nearest x \<le> 1 / 2 ^ 43" "nearest x - x \<le> 1 / 2 ^ 43"
proof -
  have "ulp x \<le> 2 powi (10 - 52)"
    using assms by (intro ulp_le) simp_all
  then have u: "ulp x \<le> 1 / 2 ^ 42" by simp
  from nearest_close [of x] u
  show c: "x - nearest x \<le> 1 / 2 ^ 43" "nearest x - x \<le> 1 / 2 ^ 43"
    by simp_all
  have "nearest x \<le> 1025" using c(2) assms(2) by simp
  moreover have "(1025::rat) < 2 ^ 1024" by simp
  ultimately show "nearest x < 2 ^ 1024" by (rule le_less_trans)
qed

lemma binary64_close:
  assumes "\<bar>x\<bar> \<le> 1024"
  shows "\<exists>y. binary64 x = Num y \<and> x - y \<le> 1 / 2 ^ 43 \<and> y - x \<le> 1 / 2 ^ 43"
proof -
  consider "x = 0" | "0 < x" | "x < 0" by linarith
  then show ?thesis
  proof cases
    case 1
    then show ?thesis by (simp add: binary64_def)
  next
    case 2
    with assms have "x \<le> 1024" by simp
    from nearest_small [OF 2 this] 2 show ?thesis
      by (simp add: binary64_def)
  next
    case 3
    with assms have "0 < - x" "- x \<le> 1024" by simp_all
    from nearest_small [OF this] 3 show ?thesis
      by (simp add: binary64_def)
  qed
qed

lemma nearest_of_int:
  assumes "0 < n" "n < 2 ^ 53"
  shows "nearest (of_int n) = of_int n"
proof -
  define x :: rat where "x = of_int n"
  have pos: "0 < x" using assms(1) by (simp add: x_def)
  have "x < of_int (2 ^ 53)" unfolding x_def using assms(2) by (simp only: of_int_less_iff)
  then have lt: "x < 2 powi 53" by simp
  have "1 \<le> n" using assms(1) by simp
  then have "of_int 1 \<le> x" unfolding x_def by (simp only: of_int_le_iff)
  then have ge: "2 powi 0 \<le> x" by simp
  from binade_bounds [OF pos] lt ge
  have "(2::rat) powi binade x < 2 powi 53" "(2::rat) powi 0 < 2 powi (binade x + 1)"
    by linarith+
  then have "binade x < 53" "0 < binade x + 1" by (simp_all only: p2_less_iff)
  then have e: "0 \<le> binade x" "binade x \<le> 52" by simp_all
  define j where "j = nat (52 - binade x)"
  have "max (binade x) (- 1022) - 52 = - int j" using e by (simp add: j_def)
  then have u: "ulp x = 1 / 2 ^ j"
    unfolding ulp_def by (simp add: power_int_minus_divide)
  have "x / ulp x = x * 2 ^ j" unfolding u by simp
  then have q: "x / ulp x = of_int (n * 2 ^ j)" by (simp add: x_def)
  have "nearest x = of_int (n * 2 ^ j) * ulp x"
    unfolding nearest_def q round_half_even_of_int ..
  also have "\<dots> = of_int n" unfolding u by simp
  finally show ?thesis by (simp add: x_def)
qed

lemma binary64_of_int:
  assumes "\<bar>n\<bar> < 2 ^ 53"
  shows "binary64 (of_int n) = Num (of_int n)"
proof -
  have big: "(2::rat) ^ 53 < 2 ^ 1024" by simp
  consider "n = 0" | "0 < n" | "n < 0" by linarith
  then show ?thesis
  proof cases
    case 1
    then show ?thesis by (simp add: binary64_def)
  next
    case 2
    with assms have lt: "n < 2 ^ 53" by simp
    have "(of_int n :: rat) < of_int (2 ^ 53)" using lt by (simp only: of_int_less_iff)
    then have "(of_int n :: rat) < 2 ^ 1024" using big by simp
    then show ?thesis using 2 by (simp add: binary64_def nearest_of_int [OF 2 lt])
  next
    case 3
    with assms have lt: "- n < 2 ^ 53" and pos: "0 < - n" by simp_all
    have "(of_int (- n) :: rat) < of_int (2 ^ 53)" using lt by (simp only: of_int_less_iff)
    then have "(of_int (- n) :: rat) < 2 ^ 1024" using big by simp
    then show ?thesis using 3 nearest_of_int [OF pos lt] by (simp add: binary64_def)
  qed
qed

lemma binary64_numeral [simp]:
  "numeral k < (2 ^ 53 :: int) \<Longrightarrow> binary64 (numeral k) = Num (numeral k)"
  using binary64_of_int [of "numeral k"] by simp

lemma binary64_0 [simp]: "binary64 0 = Num 0"
  by (simp add: binary64_def)

lemma binary64_1 [simp]: "binary64 1 = Num 1"
  using binary64_of_int [of 1] by simp


text \<open>Around \<open>20\<close> the doubles are \<open>2 ^ - 48\<close> apart, and \<open>20\<close> has an even significand:
  a number rounds to a double above \<open>20\<close> exactly when it lies above \<open>20 + 2 ^ - 49\<close>.\<close>

lemma nearest_binade_4:
  assumes "16 \<le> x" "x < 32"
  shows "nearest x = of_int (round_half_even (x * 2 ^ 48)) / 2 ^ 48"
proof -
  have "ulp x = 2 powi (4 - 52)"
    using assms by (intro ulp_binade) simp_all
  then have u: "ulp x = 1 / 2 ^ 48" by simp
  show ?thesis unfolding nearest_def u by simp
qed

lemma nearest_le_20:
  assumes "0 < x" "x \<le> 20 + 1 / 2 ^ 49"
  shows "nearest x \<le> 20"
proof (cases "16 \<le> x")
  case True
  have lt: "x < 32" using assms(2) by simp
  have "x * 2 ^ 48 \<le> of_int (20 * 2 ^ 48) + 1 / 2"
    using assms(2) by simp
  moreover have "even (20 * 2 ^ 48 :: int)" by simp
  ultimately have "round_half_even (x * 2 ^ 48) \<le> 20 * 2 ^ 48"
    by (rule round_half_even_le_tie)
  then have "(of_int (round_half_even (x * 2 ^ 48)) :: rat) \<le> of_int (20 * 2 ^ 48)"
    by (simp only: of_int_le_iff)
  then show ?thesis unfolding nearest_binade_4 [OF True lt] by simp
next
  case False
  then have "x \<le> 1024" by simp
  from nearest_small(3) [OF assms(1) this] False show ?thesis by simp
qed

lemma nearest_gt_20:
  assumes "20 + 1 / 2 ^ 49 < x"
  shows "20 + 1 / 2 ^ 48 \<le> nearest x"
proof (cases "x < 32")
  case True
  have ge: "16 \<le> x" using assms by simp
  have "of_int (20 * 2 ^ 48) + 1 / 2 < x * 2 ^ 48"
    using assms by simp
  then have "20 * 2 ^ 48 + 1 \<le> round_half_even (x * 2 ^ 48)"
    by (rule round_half_even_gt_half)
  then have "(of_int (20 * 2 ^ 48 + 1) :: rat) \<le> of_int (round_half_even (x * 2 ^ 48))"
    by (simp only: of_int_le_iff)
  then show ?thesis unfolding nearest_binade_4 [OF ge True] by simp
next
  case False
  then have "2 powi 5 \<le> x" by simp
  from ulp_ge [OF this] have u: "2 powi (5 - 52) \<le> ulp x" .
  have pos: "0 < x" using False by simp
  define k where "k = max (binade x) (- 1022)"
  have "2 powi binade x \<le> x" using pos by (rule binade_bounds)
  moreover have "(2::rat) powi 5 < 2 powi (binade x + 1)"
    using binade_bounds(2) [OF pos] \<open>2 powi 5 \<le> x\<close> by linarith
  then have "5 < binade x + 1" by (simp only: p2_less_iff)
  then have "5 \<le> binade x" by simp
  then have k: "k = binade x" by (simp add: k_def)
  have "ulp x = 2 powi binade x * 2 powi (- 52)"
    unfolding ulp_def k_def [symmetric] k by (simp add: power_int_diff)
  ultimately have "ulp x \<le> x * 2 powi (- 52)"
    using p2_pos [of "- 52"] by (simp only: mult_le_cancel_right_pos)
  then have "ulp x \<le> x / 2 ^ 52" by simp
  with nearest_close(1) [of x] have "x - x / 2 ^ 53 \<le> nearest x" by simp
  with False show ?thesis by simp
qed

lemma nearest_ge_20:
  assumes "20 \<le> x"
  shows "20 \<le> nearest x"
proof (cases "x = 20")
  case True
  have "nearest (of_int 20) = of_int 20" by (rule nearest_of_int) simp_all
  then show ?thesis by (simp add: True)
next
  case False
  show ?thesis
  proof (cases "20 + 1 / 2 ^ 49 < x")
    case True
    from nearest_gt_20 [OF this] show ?thesis by simp
  next
    case f: False
    have ge: "16 \<le> x" and lt: "x < 32" using assms f by simp_all
    have "of_int (20 * 2 ^ 48) \<le> x * 2 ^ 48" using assms by simp
    then have "20 * 2 ^ 48 \<le> round_half_even (x * 2 ^ 48)" by (rule round_half_even_ge)
    then have "(of_int (20 * 2 ^ 48) :: rat) \<le> of_int (round_half_even (x * 2 ^ 48))"
      by (simp only: of_int_le_iff)
    then show ?thesis unfolding nearest_binade_4 [OF ge lt] by simp
  qed
qed

lemma binary64_eval:
  assumes "2 powi k \<le> x" "x < 2 powi (k + 1)" "- 1022 \<le> k" "k < 1023"
  shows "binary64 x = Num (of_int (round_half_even (x / 2 powi (k - 52))) * 2 powi (k - 52))"
proof -
  have pos: "0 < x" using assms(1) p2_pos [of k] by linarith
  have u: "ulp x = 2 powi (k - 52)" using assms(1-3) by (rule ulp_binade)
  have "(2::rat) powi (k + 1) \<le> 2 powi 1023" "(2::rat) powi (k - 52) \<le> 2 powi 1023"
    using assms(4) by (simp_all only: p2_le_iff)
  with assms(2) nearest_close(2) [of x] u have "nearest x < 2 powi 1023 + 2 powi 1023 / 2"
    by linarith
  also have "\<dots> \<le> 2 powi 1024" by simp
  finally have "nearest x < 2 ^ 1024" by simp
  then show ?thesis using pos by (simp add: binary64_def) (simp add: nearest_def u)
qed


lemma p2_times: "j = a + b \<Longrightarrow> (2::rat) powi j = 2 powi a * 2 powi b"
  by (simp add: power_int_add)

lemma quotient_eq:
  fixes a b c :: rat
  shows "b \<noteq> 0 \<Longrightarrow> c = a * b \<Longrightarrow> c / b = a"
  by simp

lemma nearest_idem:
  assumes "0 < x"
  shows "nearest x = 0 \<or> (0 < nearest x \<and> nearest (nearest x) = nearest x)"
proof -
  define k where "k = max (binade x) (- 1022)"
  define u :: rat where "u = 2 powi (k - 52)"
  define n where "n = round_half_even (x / u)"
  define y where "y = nearest x"
  have u: "ulp x = u" by (simp add: ulp_def u_def k_def)
  have upos: "0 < u" unfolding u_def by (rule p2_pos)
  have y: "y = of_int n * u" by (simp add: y_def nearest_def u n_def)
  have k: "- 1022 \<le> k" "binade x \<le> k" by (simp_all add: k_def)
  have "(2::rat) powi (k + 1) = 2 powi 53 * 2 powi (k - 52)" by (rule p2_times) simp
  then have top: "2 powi (k + 1) = of_int (2 ^ 53) * u" by (simp add: u_def)
  have "(2::rat) powi k = 2 powi 52 * 2 powi (k - 52)" by (rule p2_times) simp
  then have bot: "2 powi k = of_int (2 ^ 52) * u" by (simp add: u_def)
  have "x < 2 powi (binade x + 1)" using assms by (rule binade_bounds)
  also have "\<dots> \<le> 2 powi (k + 1)" using k(2) by (simp only: p2_le_iff)
  finally have "x < of_int (2 ^ 53) * u" unfolding top .
  then have "x / u \<le> of_int (2 ^ 53)" using upos by (simp only: pos_divide_less_eq less_imp_le)
  then have n_le: "n \<le> 2 ^ 53" unfolding n_def by (rule round_half_even_le)
  have "of_int 0 \<le> x / u" using assms upos by simp
  then have n_ge: "0 \<le> n" unfolding n_def by (rule round_half_even_ge)
  show ?thesis
  proof (cases "n = 0")
    case True
    then show ?thesis by (simp add: y_def [symmetric] y)
  next
    case False
    with n_ge have npos: "0 < n" by simp
    then have ypos: "0 < y" using upos by (simp add: y)
    have "nearest y = y"
    proof (cases "n = 2 ^ 53")
      case True
      have yk: "y = 2 powi (k + 1)" unfolding y True top ..
      have "2 powi (k + 1) \<le> y" by (simp add: yk)
      moreover have "y < 2 powi (k + 1 + 1)" unfolding yk by (simp only: p2_less_iff)
      moreover have "- 1022 \<le> k + 1" using k(1) by simp
      ultimately have uy: "ulp y = 2 powi (k + 1 - 52)" by (rule ulp_binade)
      have e52: "(2::rat) powi (k + 1) = 2 powi 52 * 2 powi (k + 1 - 52)"
        by (rule p2_times) simp
      have c52: "(2::rat) powi 52 = of_int (2 ^ 52)" by simp
      have yu: "y = of_int (2 ^ 52) * ulp y"
        unfolding uy c52 [symmetric] e52 [symmetric] by (rule yk)
      have "ulp y \<noteq> 0" using ulp_pos [of y] by simp
      then have "y / ulp y = of_int (2 ^ 52)" using yu by (rule quotient_eq)
      then have "nearest y = of_int (2 ^ 52) * ulp y"
        unfolding nearest_def by (simp only: round_half_even_of_int)
      then show ?thesis using yu by simp
    next
      case ne: False
      with n_le have n_lt: "n < 2 ^ 53" by simp
      then have "(of_int n :: rat) < of_int (2 ^ 53)" by (simp only: of_int_less_iff)
      then have "y < of_int (2 ^ 53) * u" unfolding y using upos by (simp only: mult_less_cancel_right_pos)
      then have y_lt: "y < 2 powi (k + 1)" unfolding top .
      have uy: "ulp y = u"
      proof (cases "- 1022 \<le> binade x")
        case True
        then have kb: "k = binade x" by (simp add: k_def)
        have "2 powi k \<le> x" unfolding kb using assms by (rule binade_bounds)
        then have "of_int (2 ^ 52) * u \<le> x" unfolding bot .
        then have "of_int (2 ^ 52) \<le> x / u" using upos by (simp only: pos_le_divide_eq)
        then have "2 ^ 52 \<le> n" unfolding n_def by (rule round_half_even_ge)
        then have "(of_int (2 ^ 52) :: rat) \<le> of_int n" by (simp only: of_int_le_iff)
        then have "of_int (2 ^ 52) * u \<le> y" unfolding y using upos by (simp only: mult_le_cancel_right_pos)
        then have "2 powi k \<le> y" unfolding bot .
        from ulp_binade [OF this y_lt k(1)] show ?thesis by (simp add: u_def)
      next
        case False
        then have kb: "k = - 1022" by (simp add: k_def)
        have "(2::rat) powi binade y < 2 powi (k + 1)"
          using binade_bounds(1) [OF ypos] y_lt by linarith
        then have "binade y < k + 1" by (simp only: p2_less_iff)
        then have "max (binade y) (- 1022) = k" by (simp add: kb)
        then show ?thesis by (simp add: ulp_def u_def)
      qed
      have "u \<noteq> 0" using upos by simp
      then have "y / u = of_int n" using y by (rule quotient_eq)
      then have "y / ulp y = of_int n" by (simp only: uy)
      then have "nearest y = of_int n * ulp y"
        unfolding nearest_def by (simp only: round_half_even_of_int)
      then show ?thesis unfolding uy y [symmetric] .
    qed
    with ypos show ?thesis by (simp add: y_def)
  qed
qed

lemma binary64_idem:
  assumes "binary64 x = Num y"
  shows "binary64 y = Num y"
proof -
  consider "x = 0" | "0 < x" | "x < 0" by linarith
  then show ?thesis
  proof cases
    case 1
    with assms show ?thesis by (simp add: binary64_def)
  next
    case 2
    with assms have y: "y = nearest x" "nearest x < 2 ^ 1024"
      by (simp_all add: binary64_def split: if_splits)
    from nearest_idem [OF 2] show ?thesis
      using y by (auto simp: binary64_def)
  next
    case 3
    then have pos: "0 < - x" by simp
    from 3 assms have y: "y = - nearest (- x)" "nearest (- x) < 2 ^ 1024"
      by (simp_all add: binary64_def split: if_splits)
    from nearest_idem [OF pos] show ?thesis
      using y by (auto simp: binary64_def)
  qed
qed

lemma js_double_idem [simp]: "js_double (js_double v) = js_double v"
proof (cases v)
  case (Num x)
  then show ?thesis using binary64_idem [of x] by (cases "binary64 x") simp_all
qed simp_all

subsection \<open>Subtraction and comparison\<close>

lemma gt_double_binary64_20:
  "gt_double (binary64 x) 20 \<longleftrightarrow> 20 + 1 / 2 ^ 49 < x"
proof (cases "20 + 1 / 2 ^ 49 < x")
  case True
  then have pos: "0 < x" "x \<noteq> 0" by simp_all
  from nearest_gt_20 [OF True] have "20 < nearest x" by simp
  with True pos show ?thesis by (simp add: binary64_def)
next
  case False
  consider "x = 0" | "0 < x" | "x < 0" by linarith
  then show ?thesis
  proof cases
    case 1
    then show ?thesis by (simp add: binary64_def)
  next
    case 2
    with False have "nearest x \<le> 20" by (intro nearest_le_20) simp_all
    with False 2 show ?thesis by (simp add: binary64_def)
  next
    case 3
    then have "0 \<le> nearest (- x)" by (intro nearest_nonneg) simp
    with False 3 show ?thesis by (simp add: binary64_def)
  qed
qed

lemma binary64_over_20:
  assumes "binary64 x = Num y"
  shows "20 < y \<longleftrightarrow> 20 + 1 / 2 ^ 49 < y"
proof
  assume "20 + 1 / 2 ^ 49 < y"
  then show "20 < y" by simp
next
  assume y: "20 < y"
  from gt_double_binary64_20 [of x] assms y have x: "20 + 1 / 2 ^ 49 < x" by simp
  then have "0 < x" by simp
  with x assms have "y = nearest x" by (simp add: binary64_def split: if_splits)
  with nearest_gt_20 [OF x] show "20 + 1 / 2 ^ 49 < y" by simp
qed

lemma js_gt_20:
  "js_gt (binary64 x) 20 \<longleftrightarrow> 20 + 1 / 2 ^ 49 < x"
proof (cases "binary64 x")
  case (Num y)
  have "js_gt (binary64 x) 20 \<longleftrightarrow> gt_double (binary64 y) 20"
    by (simp add: js_gt_def Num)
  also have "\<dots> \<longleftrightarrow> 20 + 1 / 2 ^ 49 < y" by (rule gt_double_binary64_20)
  also have "\<dots> \<longleftrightarrow> 20 < y" using binary64_over_20 [OF Num] by simp
  also have "\<dots> \<longleftrightarrow> gt_double (binary64 x) 20" by (simp add: Num)
  also have "\<dots> \<longleftrightarrow> 20 + 1 / 2 ^ 49 < x" by (rule gt_double_binary64_20)
  finally show ?thesis .
next
  case NaN
  then show ?thesis using gt_double_binary64_20 [of x] by (simp add: js_gt_def)
next
  case PosInf
  then show ?thesis using gt_double_binary64_20 [of x] by (simp add: js_gt_def)
next
  case NegInf
  then show ?thesis using gt_double_binary64_20 [of x] by (simp add: js_gt_def)
qed

lemma js_sub_Num:
  assumes "binary64 a = Num c" "binary64 b = Num p"
  shows "js_sub (Num a) (Num b) = binary64 (c - p)"
  using assms by (simp add: js_sub_def)

lemma spike_first_clause:
  assumes "binary64 a = Num c" "binary64 b = Num p"
  shows "js_gt (js_sub (Num a) (Num b)) 20 \<longleftrightarrow> 20 + 1 / 2 ^ 49 < c - p"
  unfolding js_sub_Num [OF assms] by (rule js_gt_20)

subsection \<open>The ISO form and the minute bucket\<close>






lemma length_pad [simp]: "length (pad2 n) = 2" "length (pad3 n) = 3" "length (pad4 n) = 4" "length (pad6 n) = 6"
  by (simp_all add: pad2_def pad3_def pad4_def pad6_def)


lemma date_trunc_minute_eq_iff:
  "date_trunc_minute a = date_trunc_minute b \<longleftrightarrow>
     utc_year a = utc_year b \<and> utc_month a = utc_month b \<and> utc_day a = utc_day b
     \<and> utc_hour a = utc_hour b \<and> utc_minute a = utc_minute b"
  by (cases a; cases b) (simp add: date_trunc_minute_def)

lemma toISOString_nonempty: "toISOString a \<noteq> []"
  by (simp add: toISOString_def)

lemma same_minute_same_prefix:
  "date_trunc_minute a = date_trunc_minute b \<Longrightarrow> take 16 (toISOString a) = take 16 (toISOString b)"
  by (simp add: date_trunc_minute_eq_iff toISOString_def)


subsection \<open>The flat-file tick\<close>

lemma slice_last_id: "length xs \<le> n \<Longrightarrow> slice_last n xs = xs"
  by (simp add: slice_last_def)

lemma length_slice_last: "length (slice_last n xs) = min n (length xs)"
  by (simp add: slice_last_def)

lemma last_slice_last: "0 < n \<Longrightarrow> last (slice_last n (xs @ [x])) = x"
  by (simp add: slice_last_def)

lemma slice_last_nonempty: "0 < n \<Longrightarrow> slice_last n (xs @ [x]) \<noteq> []"
  by (simp add: slice_last_def)

lemma slice_last_full:
  assumes "length xs = n" "0 < n"
  shows "slice_last n (xs @ [x]) = tl xs @ [x]"
proof -
  from assms have "xs \<noteq> []" by auto
  then show ?thesis using assms(1) by (cases xs) (simp_all add: slice_last_def)
qed

lemma readings_append_reading:
  "readings (append_reading db sp r) = slice_last 10000 (readings db @ [stored_reading r])"
  by (simp add: append_reading_def Let_def slice_last_id)

lemma spikes_append_reading: "spikes (append_reading db sp r) = sp"
  by (simp add: append_reading_def Let_def)

lemma lastUpdate_append_reading: "lastUpdate (append_reading db sp r) = Some (timestamp r)"
  by (simp add: append_reading_def Let_def)

lemma timestamp_new_reading: "timestamp (new_reading now index info) = toISOString now"
  by (simp add: new_reading_def)

lemma index_value_new_reading:
  "index_value (new_reading now index info) = parseFloat_toFixed2 index"
  by (simp add: new_reading_def)

lemma timestamp_stored_reading: "timestamp (stored_reading r) = timestamp r"
  by (simp add: stored_reading_def)

lemma collect_manual_Arr:
  assumes "success json" "data json = Arr locs"
  shows "collect_manual tz now d (Some json) df =
     (let r = new_reading now (calculateIndex locs) (getDCTimeInfo tz d)
      in if duplicate_minute (load df) (toISOString now) then (Skipped, df)
         else (case check_spike (load df) r of
                 Inl e \<Rightarrow> (Error e, df)
               | Inr (flag, sp) \<Rightarrow>
                   (Success (index_value r, flag, length (readings (append_reading (load df) sp r))),
                    Stored (append_reading (load df) sp r))))"
  using assms
  by (simp add: collect_manual_def Let_def timestamp_new_reading index_value_new_reading
           split: sum.splits prod.splits)

lemma collect_manual_Success:
  assumes "collect_manual tz now d response df = (Success s, df')"
  shows "\<exists>json locs sp.
           response = Some json \<and> success json \<and> data json = Arr locs
           \<and> \<not> duplicate_minute (load df) (toISOString now)
           \<and> check_spike (load df) (new_reading now (calculateIndex locs) (getDCTimeInfo tz d))
                = Inr (fst (snd s), sp)
           \<and> df' = Stored (append_reading (load df) sp
                          (new_reading now (calculateIndex locs) (getDCTimeInfo tz d)))"
proof (cases response)
  case None
  with assms show ?thesis by (simp add: collect_manual_def)
next
  case (Some json)
  show ?thesis
  proof (cases "data json")
    case Falsy
    with Some assms show ?thesis by (simp add: collect_manual_def)
  next
    case NotArray
    with Some assms show ?thesis by (simp add: collect_manual_def split: if_splits)
  next
    case (Arr locs)
    show ?thesis
    proof (cases "success json")
      case False
      with Some assms show ?thesis by (simp add: collect_manual_def)
    next
      case True
      from assms show ?thesis
        unfolding Some collect_manual_Arr [OF True Arr]
        by (auto simp: Let_def True Arr split: if_splits sum.splits prod.splits)
    qed
  qed
qed

lemma check_spike_length:
  assumes "check_spike db r = Inr (flag, sp)" "length (spikes db) \<le> 100"
  shows "length sp \<le> 100"
  using assms
  by (auto simp: check_spike_def Let_def length_slice_last split: if_splits)

lemma check_spike_result:
  assumes "check_spike db r = Inr (flag, sp)"
  shows "if flag then \<exists>s. sp = slice_last 100 (spikes db @ [s]) \<and> spike_timestamp s = timestamp r
         else sp = spikes db"
  using assms
  by (auto simp: check_spike_def Let_def slice_last_id split: if_splits)

lemma check_spike_flag:
  assumes "readings fdb \<noteq> []" "index_value (last (readings fdb)) = Some f"
    and "index_value r = Num t"
  shows "\<exists>sp. check_spike fdb r
           = Inr (js_gt (js_sub (Num t) (Num f)) 20 \<or> (js_gt (Num t) 70 \<and> js_lt (Num f) 55), sp)"
  using assms by (simp add: check_spike_def Let_def)

lemma collect_manual_not_Success:
  assumes "\<forall>s. fst (collect_manual tz now d response df) \<noteq> Success s"
  shows "snd (collect_manual tz now d response df) = df"
proof (cases response)
  case None
  then show ?thesis by (simp add: collect_manual_def)
next
  case (Some json)
  show ?thesis
  proof (cases "success json \<and> (\<exists>locs. data json = Arr locs)")
    case False
    then show ?thesis
      by (cases "data json") (auto simp: collect_manual_def Some)
  next
    case True
    then obtain locs where "success json" "data json = Arr locs" by blast
    with assms show ?thesis
      unfolding Some
      by (auto simp: collect_manual_Arr Let_def split: if_splits sum.splits prod.splits)
  qed
qed

lemma collect_manual_keeps_caps:
  assumes "length (spikes (load df)) \<le> 100"
  shows "length (spikes (load (snd (collect_manual tz now d response df)))) \<le> 100"
proof (cases "\<exists>s. fst (collect_manual tz now d response df) = Success s")
  case False
  then have "snd (collect_manual tz now d response df) = df"
    by (intro collect_manual_not_Success) simp
  with assms show ?thesis by simp
next
  case True
  then obtain s where "fst (collect_manual tz now d response df) = Success s" by blast
  then have "collect_manual tz now d response df
               = (Success s, snd (collect_manual tz now d response df))"
    by (metis prod.collapse)
  from collect_manual_Success [OF this] obtain locs sp where
    cs: "check_spike (load df) (new_reading now (calculateIndex locs) (getDCTimeInfo tz d))
          = Inr (fst (snd s), sp)"
    and f: "snd (collect_manual tz now d response df) =
          Stored (append_reading (load df) sp
             (new_reading now (calculateIndex locs) (getDCTimeInfo tz d)))"
    by blast
  from check_spike_length [OF cs assms] show ?thesis
    by (simp add: f spikes_append_reading)
qed

lemma run_manual_spike_cap:
  "length (spikes (load df)) \<le> 100 \<Longrightarrow>
   length (spikes (load (run_manual tz ticks df))) \<le> 100"
proof (induction ticks arbitrary: df)
  case Nil
  then show ?case by simp
next
  case (Cons tick ticks)
  obtain now d response where tick: "tick = (now, d, response)" by (cases tick)
  from Cons.prems have "length (spikes (load (snd (collect_manual tz now d response df)))) \<le> 100"
    by (rule collect_manual_keeps_caps)
  then show ?case unfolding tick by (simp add: Cons.IH)
qed



lemma collect_manual_Success_last:
  assumes "collect_manual tz now d response df = (Success s, df')"
  shows "readings (load df') \<noteq> [] \<and> timestamp (last (readings (load df'))) = toISOString now"
proof -
  from collect_manual_Success [OF assms] obtain locs sp where
    f: "df' = Stored (append_reading (load df) sp
             (new_reading now (calculateIndex locs) (getDCTimeInfo tz d)))"
    by blast
  show ?thesis
    by (simp add: f readings_append_reading slice_last_nonempty last_slice_last
          timestamp_stored_reading timestamp_new_reading)
qed




lemma rerun_manual:
  assumes "collect_manual tz now d response df = (Success s, df1)"
    and "date_trunc_minute now' = date_trunc_minute now"
  shows "collect_manual tz now' d' response df1 = (Skipped, df1)"
proof -
  from collect_manual_Success [OF assms(1)] obtain json locs where
    ok: "response = Some json" "success json" "data json = Arr locs"
    by blast
  from collect_manual_Success_last [OF assms(1)]
  have "duplicate_minute (load df1) (toISOString now')"
    using same_minute_same_prefix [OF assms(2)] toISOString_nonempty [of now]
    by (simp add: duplicate_minute_def)
  then show ?thesis
    unfolding ok(1) collect_manual_Arr [OF ok(2,3)] by (simp add: Let_def)
qed

subsection \<open>The database tick\<close>

lemma insert_reading_Inr:
  assumes "insert_reading db r = Inr db1"
  shows "\<exists>x. to_decimal_5_2 (index_value r) = Inr (Some x)
           \<and> pizza_spikes db1 = pizza_spikes db
           \<and> pizza_readings db1 = pizza_readings db @
                [\<lparr>timestamp = timestamp r, index_value = x,
                  dc_hour = dc_hour r, dc_weekday = dc_weekday r,
                  is_overtime = is_overtime r, is_weekend = is_weekend r\<rparr>]"
  using assms
  by (auto simp: insert_reading_def split: sum.splits option.splits)

lemma insert_reading_accepts:
  assumes "to_decimal_5_2 (index_value r) = Inr (Some x)"
  shows "\<exists>db1. insert_reading db r = Inr db1
           \<and> pizza_readings db1 = pizza_readings db @
                [\<lparr>timestamp = timestamp r, index_value = x,
                  dc_hour = dc_hour r, dc_weekday = dc_weekday r,
                  is_overtime = is_overtime r, is_weekend = is_weekend r\<rparr>]"
  using assms by (simp add: insert_reading_def)

lemma insert_reading_Inl:
  "insert_reading db r = Inl e \<Longrightarrow> e = NumericOverflow \<or> e = NotNullViolation"
  by (auto simp: insert_reading_def split: sum.splits option.splits dest: to_decimal_5_2_Inl)

lemma pizza_readings_insert_spike: "pizza_readings (insert_spike db s) = pizza_readings db"
  by (simp add: insert_spike_def split: sum.splits prod.splits)

lemma pizza_spikes_insert_spike:
  "pizza_spikes (insert_spike db s) = pizza_spikes db
   \<or> (\<exists>row. pizza_spikes (insert_spike db s) = pizza_spikes db @ [row]
          \<and> spike_timestamp row = spike_timestamp s)"
  by (simp add: insert_spike_def split: sum.splits prod.splits)

lemma detectSpike_timestamp:
  "detectSpike db now currentIndex dcInfo = Some sp \<Longrightarrow> spike_timestamp sp = now"
  by (auto simp: detectSpike_def spike_object_def Let_def split: list.splits if_splits)

lemma collect_Arr:
  assumes "success json" "data json = Arr locs"
  shows "collect tz clk (Some json) db =
     (case insert_reading db
             (reading_object (t_insert clk) (calculateIndex locs) (getDCTimeInfo tz (t_dc clk))) of
        Inl e \<Rightarrow> (if e = UniqueViolation then (Skipped, db) else (Error e, db))
      | Inr db1 \<Rightarrow>
          (case detectSpike db1 (t_spike clk) (calculateIndex locs) (getDCTimeInfo tz (t_dc clk)) of
             Some spike \<Rightarrow> (Success (calculateIndex locs, True), insert_spike db1 spike)
           | None \<Rightarrow> (Success (calculateIndex locs, False), db1)))"
  using assms by (simp add: collect_def Let_def)

lemma collect_continuous_Arr:
  assumes "success json" "data json = Arr locs"
  shows "collect_continuous tz clk (Some json) db =
     (case insert_reading db
             (reading_object (t_insert clk) (calculateIndex locs) (getDCTimeInfo tz (t_dc clk))) of
        Inl e \<Rightarrow> (if e = UniqueViolation then (Skipped, db) else (Error e, db))
      | Inr db1 \<Rightarrow>
          (case select_latest 2 db1 of
             _ # prev # _ \<Rightarrow>
               (if js_gt (js_sub (calculateIndex locs) (Num prev)) 20
                     \<or> (js_gt (calculateIndex locs) 70 \<and> js_lt (Num prev) 55)
                then (Success (calculateIndex locs, True),
                      insert_spike db1
                        (spike_object (t_spike clk) prev (calculateIndex locs)
                           (js_sub (calculateIndex locs) (Num prev)) (getDCTimeInfo tz (t_dc clk))))
                else (Success (calculateIndex locs, False), db1))
           | _ \<Rightarrow> (Success (calculateIndex locs, False), db1)))"
  using assms by (simp add: collect_continuous_def Let_def split: sum.splits list.splits)

lemma collect_Success_response:
  assumes "collect tz clk response db = (Success s, db')"
  shows "\<exists>json locs. response = Some json \<and> success json \<and> data json = Arr locs"
proof (cases response)
  case None
  with assms show ?thesis by (simp add: collect_def)
next
  case (Some json)
  with assms show ?thesis
    by (cases "data json") (auto simp: collect_def split: if_splits)
qed

lemma collect_continuous_Success_response:
  assumes "collect_continuous tz clk response db = (Success s, db')"
  shows "\<exists>json locs. response = Some json \<and> success json \<and> data json = Arr locs"
proof (cases response)
  case None
  with assms show ?thesis by (simp add: collect_continuous_def)
next
  case (Some json)
  with assms show ?thesis
    by (cases "data json") (auto simp: collect_continuous_def split: if_splits)
qed

lemma collect_Success:
  assumes "collect tz clk (Some json) db = (Success s, db')"
    and "success json" "data json = Arr locs"
  shows "\<exists>db1. insert_reading db
             (reading_object (t_insert clk) (calculateIndex locs) (getDCTimeInfo tz (t_dc clk)))
             = Inr db1
           \<and> fst s = calculateIndex locs
           \<and> pizza_readings db' = pizza_readings db1
           \<and> (pizza_spikes db' = pizza_spikes db1
                \<or> (\<exists>row. pizza_spikes db' = pizza_spikes db1 @ [row]
                       \<and> spike_timestamp row = t_spike clk))"
proof (cases "insert_reading db
             (reading_object (t_insert clk) (calculateIndex locs) (getDCTimeInfo tz (t_dc clk)))")
  case (Inl e)
  with assms(1) show ?thesis
    unfolding collect_Arr [OF assms(2,3)] by (simp split: if_splits)
next
  case (Inr db1)
  show ?thesis
  proof (cases "detectSpike db1 (t_spike clk) (calculateIndex locs) (getDCTimeInfo tz (t_dc clk))")
    case None
    with Inr assms(1) show ?thesis
      unfolding collect_Arr [OF assms(2,3)] by auto
  next
    case (Some sp)
    with Inr assms(1) have db': "db' = insert_spike db1 sp" and s: "fst s = calculateIndex locs"
      unfolding collect_Arr [OF assms(2,3)] by auto
    from detectSpike_timestamp [OF Some] pizza_spikes_insert_spike [of db1 sp]
    show ?thesis
      by (simp add: Inr db' s pizza_readings_insert_spike)
  qed
qed

lemma collect_continuous_Success:
  assumes "collect_continuous tz clk (Some json) db = (Success s, db')"
    and "success json" "data json = Arr locs"
  shows "\<exists>db1. insert_reading db
             (reading_object (t_insert clk) (calculateIndex locs) (getDCTimeInfo tz (t_dc clk)))
             = Inr db1
           \<and> fst s = calculateIndex locs
           \<and> pizza_readings db' = pizza_readings db1
           \<and> (pizza_spikes db' = pizza_spikes db1
                \<or> (\<exists>row. pizza_spikes db' = pizza_spikes db1 @ [row]
                       \<and> spike_timestamp row = t_spike clk))"
proof (cases "insert_reading db
             (reading_object (t_insert clk) (calculateIndex locs) (getDCTimeInfo tz (t_dc clk)))")
  case (Inl e)
  with assms(1) show ?thesis
    unfolding collect_continuous_Arr [OF assms(2,3)] by (simp split: if_splits)
next
  case (Inr db1)
  have ts: "spike_timestamp (spike_object (t_spike clk) p i c info) = t_spike clk" for p i c info
    by (simp add: spike_object_def)
  from Inr assms(1) have s: "fst s = calculateIndex locs"
    unfolding collect_continuous_Arr [OF assms(2,3)]
    by (auto split: list.splits if_splits)
  from Inr assms(1) have
    "db' = db1 \<or> (\<exists>p i c info. db' = insert_spike db1 (spike_object (t_spike clk) p i c info))"
    unfolding collect_continuous_Arr [OF assms(2,3)]
    by (auto split: list.splits if_splits)
  then show ?thesis
  proof
    assume "db' = db1"
    with Inr s show ?thesis by simp
  next
    assume "\<exists>p i c info. db' = insert_spike db1 (spike_object (t_spike clk) p i c info)"
    then obtain p i c info where db': "db' = insert_spike db1 (spike_object (t_spike clk) p i c info)"
      by blast
    from pizza_spikes_insert_spike [of db1 "spike_object (t_spike clk) p i c info"]
    show ?thesis
      by (simp add: Inr db' s pizza_readings_insert_spike ts)
  qed
qed

lemma collect_after_insert:
  assumes "success json" "data json = Arr locs"
    and "insert_reading db
           (reading_object (t_insert clk) (calculateIndex locs) (getDCTimeInfo tz (t_dc clk)))
         = Inr db0"
  shows "\<exists>flag db'. collect tz clk (Some json) db = (Success (calculateIndex locs, flag), db')
           \<and> pizza_readings db' = pizza_readings db0"
  unfolding collect_Arr [OF assms(1,2)] assms(3)
  by (cases "detectSpike db0 (t_spike clk) (calculateIndex locs) (getDCTimeInfo tz (t_dc clk))")
     (auto simp: pizza_readings_insert_spike)

lemma collect_continuous_after_insert:
  assumes "success json" "data json = Arr locs"
    and "insert_reading db
           (reading_object (t_insert clk) (calculateIndex locs) (getDCTimeInfo tz (t_dc clk)))
         = Inr db0"
  shows "\<exists>flag db'. collect_continuous tz clk (Some json) db
                        = (Success (calculateIndex locs, flag), db')
           \<and> pizza_readings db' = pizza_readings db0"
  unfolding collect_continuous_Arr [OF assms(1,2)] assms(3)
  by (auto simp: pizza_readings_insert_spike split: list.splits)

lemma collect_never_Skipped: "fst (collect tz clk response db) \<noteq> Skipped"
proof (cases response)
  case None
  then show ?thesis by (simp add: collect_def)
next
  case (Some json)
  show ?thesis
  proof (cases "success json \<and> (\<exists>locs. data json = Arr locs)")
    case False
    then show ?thesis
      by (cases "data json") (auto simp: collect_def Some)
  next
    case True
    then obtain locs where ok: "success json" "data json = Arr locs" by blast
    show ?thesis
      unfolding Some collect_Arr [OF ok]
      by (auto split: sum.splits option.splits dest: insert_reading_Inl)
  qed
qed

lemma collect_continuous_never_Skipped:
  "fst (collect_continuous tz clk response db) \<noteq> Skipped"
proof (cases response)
  case None
  then show ?thesis by (simp add: collect_continuous_def)
next
  case (Some json)
  show ?thesis
  proof (cases "success json \<and> (\<exists>locs. data json = Arr locs)")
    case False
    then show ?thesis
      by (cases "data json") (auto simp: collect_continuous_def Some)
  next
    case True
    then obtain locs where ok: "success json" "data json = Arr locs" by blast
    show ?thesis
      unfolding Some collect_continuous_Arr [OF ok]
      by (auto split: sum.splits list.splits dest: insert_reading_Inl)
  qed
qed

text \<open>A tick that has stored its reading, run once more on the tables it left: the
  insert is accepted again and the same row is appended a second time.\<close>

lemma rerun_insert:
  assumes "insert_reading db r = Inr db0"
    and "pizza_readings db1 = pizza_readings db0"
  shows "\<exists>row db2. pizza_readings db1 = pizza_readings db @ [row]
           \<and> insert_reading db1 r = Inr db2
           \<and> pizza_readings db2 = pizza_readings db @ [row, row]"
proof -
  from insert_reading_Inr [OF assms(1)] obtain x where
    dec: "to_decimal_5_2 (index_value r) = Inr (Some x)"
    and app: "pizza_readings db0 = pizza_readings db @
                [\<lparr>timestamp = timestamp r, index_value = x,
                  dc_hour = dc_hour r, dc_weekday = dc_weekday r,
                  is_overtime = is_overtime r, is_weekend = is_weekend r\<rparr>]"
    by blast
  from insert_reading_accepts [OF dec, of db1] obtain db2 where
    "insert_reading db1 r = Inr db2"
    "pizza_readings db2 = pizza_readings db1 @
                [\<lparr>timestamp = timestamp r, index_value = x,
                  dc_hour = dc_hour r, dc_weekday = dc_weekday r,
                  is_overtime = is_overtime r, is_weekend = is_weekend r\<rparr>]"
    by blast
  then show ?thesis by (simp add: assms(2) app)
qed

lemma rerun_collect:
  assumes "collect tz clk response db = (Success s, db1)"
  shows "\<exists>row flag db2. pizza_readings db1 = pizza_readings db @ [row]
           \<and> collect tz clk response db1 = (Success (fst s, flag), db2)
           \<and> pizza_readings db2 = pizza_readings db @ [row, row]"
proof -
  from collect_Success_response [OF assms] obtain json locs where
    ok: "response = Some json" "success json" "data json = Arr locs"
    by blast
  let ?r = "reading_object (t_insert clk) (calculateIndex locs) (getDCTimeInfo tz (t_dc clk))"
  from collect_Success [OF assms [unfolded ok(1)] ok(2,3)] obtain db0 where
    ins: "insert_reading db ?r = Inr db0"
    and idx: "fst s = calculateIndex locs"
    and rd: "pizza_readings db1 = pizza_readings db0"
    by blast
  from rerun_insert [OF ins rd] obtain row db2 where
    row: "pizza_readings db1 = pizza_readings db @ [row]"
    and ins2: "insert_reading db1 ?r = Inr db2"
    and two: "pizza_readings db2 = pizza_readings db @ [row, row]"
    by blast
  from collect_after_insert [OF ok(2,3) ins2] obtain flag db' where
    "collect tz clk (Some json) db1 = (Success (calculateIndex locs, flag), db')"
    "pizza_readings db' = pizza_readings db2"
    by blast
  with row two show ?thesis unfolding ok(1) idx by auto
qed

lemma rerun_collect_continuous:
  assumes "collect_continuous tz clk response db = (Success s, db1)"
  shows "\<exists>row flag db2. pizza_readings db1 = pizza_readings db @ [row]
           \<and> collect_continuous tz clk response db1 = (Success (fst s, flag), db2)
           \<and> pizza_readings db2 = pizza_readings db @ [row, row]"
proof -
  from collect_continuous_Success_response [OF assms] obtain json locs where
    ok: "response = Some json" "success json" "data json = Arr locs"
    by blast
  let ?r = "reading_object (t_insert clk) (calculateIndex locs) (getDCTimeInfo tz (t_dc clk))"
  from collect_continuous_Success [OF assms [unfolded ok(1)] ok(2,3)] obtain db0 where
    ins: "insert_reading db ?r = Inr db0"
    and idx: "fst s = calculateIndex locs"
    and rd: "pizza_readings db1 = pizza_readings db0"
    by blast
  from rerun_insert [OF ins rd] obtain row db2 where
    row: "pizza_readings db1 = pizza_readings db @ [row]"
    and ins2: "insert_reading db1 ?r = Inr db2"
    and two: "pizza_readings db2 = pizza_readings db @ [row, row]"
    by blast
  from collect_continuous_after_insert [OF ok(2,3) ins2] obtain flag db' where
    "collect_continuous tz clk (Some json) db1 = (Success (calculateIndex locs, flag), db')"
    "pizza_readings db' = pizza_readings db2"
    by blast
  with row two show ?thesis unfolding ok(1) idx by auto
qed

lemma insort_key_before_last:
  fixes k :: "'a \<Rightarrow> nat"
  assumes "k x \<le> k y"
  shows "insort_key k x (zs @ [y]) = insort_key k x zs @ [y]"
  using assms by (induction zs) simp_all

lemma sort_key_append_latest:
  fixes k :: "'a \<Rightarrow> nat"
  assumes "\<forall>r \<in> set xs. k r < k y"
  shows "sort_key k (xs @ [y]) = sort_key k xs @ [y]"
  using assms
proof (induction xs)
  case Nil
  then show ?case by simp
next
  case (Cons x xs)
  then have "k x \<le> k y" by simp
  with Cons show ?case by (simp add: insort_key_before_last)
qed

lemma select_latest_appended:
  assumes "\<forall>row \<in> set (pizza_readings db). ts_key (timestamp row) < ts_key (timestamp r)"
    and "pizza_readings db1 = pizza_readings db @ [r]"
  shows "select_latest 1 db1 = [index_value r]"
  using sort_key_append_latest [of "pizza_readings db" "\<lambda>row. ts_key (timestamp row)" r] assms
  by (simp add: select_latest_def)

text \<open>A number against its own value as the column stores it: the two differ by at most
  \<open>0.005\<close>, also after both are rounded to doubles, so neither clause of the spike test
  holds.\<close>

lemma own_value_no_spike:
  assumes "\<bar>round2 v\<bar> < 1000"
  shows "\<not> js_gt (js_sub (Num v) (Num (round2 v))) 20"
    and "\<not> (js_gt (Num v) 70 \<and> js_lt (Num (round2 v)) 55)"
proof -
  from round2_close [of v] have r: "v - round2 v \<le> 1 / 200" "round2 v - v \<le> 1 / 200"
    by blast+
  with assms have "\<bar>v\<bar> \<le> 1024" "\<bar>round2 v\<bar> \<le> 1024" by linarith+
  from binary64_close [OF this(1)] binary64_close [OF this(2)] obtain c p where
    c: "binary64 v = Num c" "v - c \<le> 1 / 2 ^ 43" "c - v \<le> 1 / 2 ^ 43"
    and p: "binary64 (round2 v) = Num p" "round2 v - p \<le> 1 / 2 ^ 43" "p - round2 v \<le> 1 / 2 ^ 43"
    by blast
  have small: "(1::rat) / 2 ^ 43 \<le> 1" by simp
  from r c(3) p(2) small have "c - p \<le> 3" by linarith
  then have "\<not> 20 + 1 / 2 ^ 49 < c - p" by simp
  then show "\<not> js_gt (js_sub (Num v) (Num (round2 v))) 20"
    by (simp only: spike_first_clause [OF c(1) p(1)] not_False_eq_True)
  from r c(3) p(2) small have "\<not> (70 < c \<and> p < 55)" by linarith
  then show "\<not> (js_gt (Num v) 70 \<and> js_lt (Num (round2 v)) 55)"
    by (simp add: js_gt_def js_lt_def c(1) p(1))
qed

lemma detectSpike_on_own_row:
  assumes "select_latest 1 db1 = [round2 v]" "\<bar>round2 v\<bar> < 1000"
  shows "detectSpike db1 now (Num v) dcInfo = None"
  using own_value_no_spike [OF assms(2)] assms(1) by (simp add: detectSpike_def Let_def)

subsection \<open>Evaluation of the worked instances\<close>

lemmas eval_simps =
  collect_Arr collect_continuous_Arr collect_manual_Arr upstream_def clock_at_def jan19_def
  eastern_standard_def one_reading_def calculateIndex_def js_div_length_def getDCTimeInfo_def
  reading_object_def spike_object_def insert_reading_def insert_spike_def to_decimal_5_2_def
  round2_def round_half_away_def floor_rat_numeral detectSpike_def select_latest_def
  js_sub_def js_gt_def js_lt_def ts_key_def Let_def

lemmas flat_eval =
  duplicate_minute_def check_spike_def append_reading_def new_reading_def stored_reading_def
  toISOString_def pad2_def pad3_def pad4_def digit_def slice_last_def valid_instant_def

lemma first_tick:
  "collect_manual eastern_standard (jan19 9 0 0 0) (jan19 9 0 0 2) (upstream [10]) Missing
     = (Success (Num 10, False, 1), after_first_tick)"
  by (simp add: eval_simps flat_eval after_first_tick_def)

lemma second_tick:
  "collect_manual eastern_standard (jan19 9 10 0 0) (jan19 9 10 0 2) (upstream [80])
       after_first_tick
     = (Success (Num 80, True, 2), after_second_tick)"
  by (simp add: eval_simps flat_eval after_first_tick_def after_second_tick_def)

text \<open>The doubles of \<open>12.2\<close>, \<open>32.2\<close>, \<open>0.01\<close> and \<open>20.01\<close>, and of two differences
  of them.\<close>

lemma example_doubles:
  "binary64 (61 / 5) = Num (3433994715870003 / 281474976710656)"
  "binary64 (161 / 5) = Num (2265873562520781 / 70368744177664)"
  "binary64 (5629499534213121 / 281474976710656) = Num (5629499534213121 / 281474976710656)"
  "binary64 (1 / 100) = Num (5764607523034235 / 576460752303423488)"
  "binary64 (2001 / 100) = Num (5632314283980227 / 281474976710656)"
  "binary64 (11529215046068470661 / 576460752303423488) = Num 20"
  using binary64_eval [of 3 "61 / 5"] binary64_eval [of 5 "161 / 5"]
    binary64_eval [of 4 "5629499534213121 / 281474976710656"]
    binary64_eval [of "- 7" "1 / 100"] binary64_eval [of 4 "2001 / 100"]
    binary64_eval [of 4 "11529215046068470661 / 576460752303423488"]
  by (simp_all add: round_half_even_def floor_rat_numeral)

lemma ex_hyps:
  "select_latest 1 (db_with_last x) = [x]"
  "readings (file_with_last x) \<noteq> []"
  "index_value (last (readings (file_with_last x))) = Some x"
  "index_value (one_reading ts (Num y)) = Num y"
  by (simp_all add: select_latest_def db_with_last_def file_with_last_def one_reading_def)

section \<open>The metric aggregator\<close>

text \<open>
  C1, as the code has it. On the empty array \<open>calculateIndex\<close> does not fail: the sum
  is \<open>0\<close>, the length is \<open>0\<close>, and \<open>0 / 0\<close> is NaN, which it returns. The value goes
  on: the flat-file tick succeeds and writes a reading whose \<open>index_value\<close> is \<open>null\<close>;
  the database ticks hand it to the insert, which the \<open>NOT NULL\<close> column rejects, and
  end in an error that is not about the payload.
\<close>

theorem calculateIndex_empty_NaN:
  "calculateIndex [] = NaN
   \<and> calculateIndex_manual (Arr []) = Inr NaN
   \<and> collect_manual tz now d (Some \<lparr>success = True, data = Arr []\<rparr>) Missing
       = (Success (NaN, False, 1),
          Stored \<lparr>readings = [\<lparr>timestamp = toISOString now, index_value = None,
                               dc_hour = hour (getDCTimeInfo tz d),
                               dc_weekday = weekday (getDCTimeInfo tz d),
                               is_overtime = isOvertime (getDCTimeInfo tz d),
                               is_weekend = isWeekend (getDCTimeInfo tz d)\<rparr>],
                  spikes = [], lastUpdate = Some (toISOString now)\<rparr>)
   \<and> collect tz clk (Some \<lparr>success = True, data = Arr []\<rparr>) db = (Error NotNullViolation, db)
   \<and> collect_continuous tz clk (Some \<lparr>success = True, data = Arr []\<rparr>) db
       = (Error NotNullViolation, db)"
  by (simp add: calculateIndex_def js_div_length_def collect_manual_Arr collect_Arr
        collect_continuous_Arr Let_def duplicate_minute_def check_spike_def append_reading_def
        new_reading_def stored_reading_def insert_reading_def to_decimal_5_2_def
        reading_object_def)

theorem calculateIndex_empty_NaN_witness:
  "collect_manual eastern_standard (jan19 9 0 0 0) (jan19 9 0 0 2)
       (Some \<lparr>success = True, data = Arr []\<rparr>) Missing
     = (Success (NaN, False, 1),
        Stored \<lparr>readings = [one_reading ''2026-01-19T09:00:00.000Z'' None],
                spikes = [], lastUpdate = Some ''2026-01-19T09:00:00.000Z''\<rparr>)
   \<and> collect eastern_standard (clock_at 9 0) (Some \<lparr>success = True, data = Arr []\<rparr>)
       \<lparr>pizza_readings = [], pizza_spikes = []\<rparr>
     = (Error NotNullViolation, \<lparr>pizza_readings = [], pizza_spikes = []\<rparr>)"
  using calculateIndex_empty_NaN
    [where tz = eastern_standard and now = "jan19 9 0 0 0" and d = "jan19 9 0 0 2"
       and clk = "clock_at 9 0" and db = "\<lparr>pizza_readings = [], pizza_spikes = []\<rparr>"]
  by (simp add: eval_simps flat_eval)

text \<open>The claim as stated asks for a failure on the empty array; there is none.\<close>

theorem calculateIndex_empty_counterexample:
  "\<not> isl (calculateIndex_manual (Arr []))"
  by simp

text \<open>
  C5. On a non-empty array the index is the arithmetic mean of the records'
  popularity-or-zero: a record without popularity, or with \<open>null\<close>, adds \<open>0\<close> to the sum
  and still counts in the denominator. Both variants of \<open>calculateIndex\<close> agree.
\<close>

theorem calculateIndex_mean:
  assumes "locs \<noteq> []"
  shows "calculateIndex locs =
           Num (sum_list (map (\<lambda>loc. case current_popularity loc of
                                       Pop x \<Rightarrow> x | _ \<Rightarrow> 0) locs)
                / of_nat (length locs))
         \<and> calculateIndex_manual (Arr locs) =
           Inr (Num (sum_list (map (\<lambda>loc. case current_popularity loc of
                                            Pop x \<Rightarrow> x | _ \<Rightarrow> 0) locs)
                     / of_nat (length locs)))"
proof -
  have same: "popularity_or_zero = (\<lambda>loc. case current_popularity loc of Pop x \<Rightarrow> x | _ \<Rightarrow> 0)"
    by (rule ext) (simp split: popularity.splits)
  from assms have "length locs \<noteq> 0" by simp
  then show ?thesis
    by (simp add: calculateIndex_def js_div_length_def foldl_plus_sum_list same
             del: popularity_or_zero.simps)
qed

theorem calculateIndex_mean_witness:
  "[\<lparr>current_popularity = Pop 40\<rparr>, \<lparr>current_popularity = Absent\<rparr>,
    \<lparr>current_popularity = Null\<rparr>, \<lparr>current_popularity = Pop 60\<rparr>] \<noteq> []
   \<and> calculateIndex [\<lparr>current_popularity = Pop 40\<rparr>, \<lparr>current_popularity = Absent\<rparr>,
        \<lparr>current_popularity = Null\<rparr>, \<lparr>current_popularity = Pop 60\<rparr>] = Num 25"
  using calculateIndex_mean
    [of "[\<lparr>current_popularity = Pop 40\<rparr>, \<lparr>current_popularity = Absent\<rparr>,
          \<lparr>current_popularity = Null\<rparr>, \<lparr>current_popularity = Pop 60\<rparr>]"]
  by simp

section \<open>The time classifier\<close>

text \<open>
  C6. \<open>isOvertime\<close> holds exactly when the hour read in the reference time zone lies
  outside \<open>[6, 18)\<close>, which for an hour of the day is the set \<open>{18..23} \<union> {0..5}\<close>;
  \<open>isWeekend\<close> holds exactly when the weekday read there is \<open>0\<close> or \<open>6\<close>.
\<close>

theorem getDCTimeInfo_flags:
  assumes "fst (tz date) < 24"
  shows "(isOvertime (getDCTimeInfo tz date) \<longleftrightarrow> fst (tz date) \<in> {18..23} \<union> {0..5})
       \<and> (isOvertime (getDCTimeInfo tz date) \<longleftrightarrow> fst (tz date) \<notin> {6..<18})
       \<and> (isWeekend (getDCTimeInfo tz date) \<longleftrightarrow> snd (tz date) \<in> {0, 6})
       \<and> hour (getDCTimeInfo tz date) = fst (tz date)
       \<and> weekday (getDCTimeInfo tz date) = snd (tz date)"
  using assms by (auto simp: getDCTimeInfo_def Let_def)

theorem getDCTimeInfo_flags_witness:
  "fst ((\<lambda>_. (23::nat, 6::nat)) ()) < 24
   \<and> isOvertime (getDCTimeInfo (\<lambda>_. (23, 6)) ())
   \<and> isWeekend (getDCTimeInfo (\<lambda>_. (23, 6)) ())"
  using getDCTimeInfo_flags [of "\<lambda>_. (23, 6)" "()"]
  by simp

section \<open>The spike detector\<close>

text \<open>
  C2. \<open>collect\<close> of \<open>scripts/collect.js\<close> (and \<open>collectData\<close> of \<open>api/collect.js\<close>)
  inserts the new reading first and calls \<open>detectSpike\<close> afterwards. Whenever the new
  row carries the latest timestamp, the row \<open>detectSpike\<close> reads back is that very row:
  the current index is compared with its own stored value, the difference is at most
  the rounding of the column (and of the doubles), and no spike is ever reported or
  written. The reading that was stored before the tick is not looked at.
\<close>

theorem collect_compares_with_inserted_row:
  assumes "collect tz clk response db = (Success (i, flag), db')"
    and "\<forall>row \<in> set (pizza_readings db). ts_key (timestamp row) < ts_key (t_insert clk)"
  shows "\<not> flag \<and> pizza_spikes db' = pizza_spikes db
       \<and> select_latest 1 db' = [index_value (last (pizza_readings db'))]"
proof -
  from collect_Success_response [OF assms(1)] obtain json locs where
    ok: "response = Some json" "success json" "data json = Arr locs"
    by blast
  let ?info = "getDCTimeInfo tz (t_dc clk)"
  let ?r = "reading_object (t_insert clk) (calculateIndex locs) ?info"
  from collect_Success [OF assms(1) [unfolded ok(1)] ok(2,3)] obtain db1 where
    ins: "insert_reading db ?r = Inr db1"
    by blast
  from insert_reading_Inr [OF ins] obtain x where
    dec: "to_decimal_5_2 (index_value ?r) = Inr (Some x)"
    and app: "pizza_readings db1 = pizza_readings db @
                [\<lparr>timestamp = timestamp ?r, index_value = x,
                  dc_hour = dc_hour ?r, dc_weekday = dc_weekday ?r,
                  is_overtime = is_overtime ?r, is_weekend = is_weekend ?r\<rparr>]"
    and sp: "pizza_spikes db1 = pizza_spikes db"
    by blast
  from dec obtain v where
    v: "calculateIndex locs = Num v" "x = round2 v" and bound: "\<bar>round2 v\<bar> < 1000"
    by (cases "calculateIndex locs")
       (auto simp: to_decimal_5_2_def reading_object_def split: if_splits)
  have latest: "select_latest 1 db1 = [x]"
    using select_latest_appended [OF _ app] assms(2) by (simp add: reading_object_def)
  then have "select_latest 1 db1 = [round2 v]" by (simp only: v(2))
  then have none: "detectSpike db1 (t_spike clk) (calculateIndex locs) ?info = None"
    unfolding v(1) using bound by (rule detectSpike_on_own_row)
  from assms(1) have res: "flag = False" "db' = db1"
    unfolding ok(1) collect_Arr [OF ok(2,3)] by (simp_all add: ins none)
  from res sp latest app show ?thesis by simp
qed

text \<open>
  An instance: the stored index is \<open>10\<close>, the new one \<open>80\<close>. \<open>collect\<close> reports no
  spike; \<open>collect\<close> of \<open>scripts/continuous.js\<close>, which skips the row it has just
  inserted, reports one on the same input.
\<close>

theorem collect_compares_with_inserted_row_witness:
  "collect eastern_standard (clock_at 9 10) (upstream [80])
      \<lparr>pizza_readings = [one_reading (jan19 9 0 0 120) 10], pizza_spikes = []\<rparr>
     = (Success (Num 80, False),
        \<lparr>pizza_readings = [one_reading (jan19 9 0 0 120) 10, one_reading (jan19 9 10 0 120) 80],
         pizza_spikes = []\<rparr>)
   \<and> ts_key (jan19 9 0 0 120) < ts_key (t_insert (clock_at 9 10))
   \<and> select_latest 1
        \<lparr>pizza_readings = [one_reading (jan19 9 0 0 120) 10, one_reading (jan19 9 10 0 120) 80],
         pizza_spikes = []\<rparr> = [80]
   \<and> fst (collect_continuous eastern_standard (clock_at 9 10) (upstream [80])
            \<lparr>pizza_readings = [one_reading (jan19 9 0 0 120) 10], pizza_spikes = []\<rparr>)
     = Success (Num 80, True)"
proof -
  have run: "collect eastern_standard (clock_at 9 10) (upstream [80])
      \<lparr>pizza_readings = [one_reading (jan19 9 0 0 120) 10], pizza_spikes = []\<rparr>
     = (Success (Num 80, False),
        \<lparr>pizza_readings = [one_reading (jan19 9 0 0 120) 10, one_reading (jan19 9 10 0 120) 80],
         pizza_spikes = []\<rparr>)"
    by (simp add: eval_simps)
  have older: "\<forall>row \<in> set (pizza_readings
                  \<lparr>pizza_readings = [one_reading (jan19 9 0 0 120) 10], pizza_spikes = []\<rparr>).
                 ts_key (timestamp row) < ts_key (t_insert (clock_at 9 10))"
    by (simp add: eval_simps)
  have sibling: "fst (collect_continuous eastern_standard (clock_at 9 10) (upstream [80])
            \<lparr>pizza_readings = [one_reading (jan19 9 0 0 120) 10], pizza_spikes = []\<rparr>)
     = Success (Num 80, True)"
    by (simp add: eval_simps)
  from collect_compares_with_inserted_row [OF run older] run older sibling
  show ?thesis by (simp add: one_reading_def)
qed

text \<open>
  C3, as the code has it. The value compared against and the new value are doubles,
  \<open>p\<close> and \<open>c\<close>, and the difference the program tests is the double nearest to
  \<open>c - p\<close>. A spike is reported exactly when that double is above \<open>20\<close>, which is
  when \<open>c - p > 20 + 2 ^ - 49\<close>, or \<open>c > 70\<close> and \<open>p < 55\<close>: by \<open>detectSpike\<close> of the
  database collectors on the row it reads, and by the check of
  \<open>scripts/collect-manual.js\<close> on the last stored reading. Unless \<open>c - p\<close> lies in
  the gap between \<open>20\<close> and \<open>20 + 2 ^ - 49\<close>, this is the comparison \<open>c - p > 20\<close>
  of the exact difference of the two doubles.
\<close>

theorem spike_rule_doubles:
  assumes "select_latest 1 db = [prev]"
    and "readings fdb \<noteq> []" "index_value (last (readings fdb)) = Some prev"
    and "index_value r = Num cur"
    and "binary64 prev = Num p" "binary64 cur = Num c"
  shows "(detectSpike db now (Num cur) dcInfo \<noteq> None
            \<longleftrightarrow> 20 + 1 / 2 ^ 49 < c - p \<or> (70 < c \<and> p < 55))
       \<and> (\<exists>sp. check_spike fdb r
                  = Inr (20 + 1 / 2 ^ 49 < c - p \<or> (70 < c \<and> p < 55), sp))
       \<and> js_sub (Num cur) (Num prev) = binary64 (c - p)
       \<and> (gt_double (binary64 (c - p)) 20 \<longleftrightarrow> 20 + 1 / 2 ^ 49 < c - p)
       \<and> (c - p \<le> 20 \<or> 20 + 1 / 2 ^ 49 < c - p \<longrightarrow>
            (detectSpike db now (Num cur) dcInfo \<noteq> None
               \<longleftrightarrow> 20 < c - p \<or> (70 < c \<and> p < 55)))"
proof -
  have first: "js_gt (js_sub (Num cur) (Num prev)) 20 \<longleftrightarrow> 20 + 1 / 2 ^ 49 < c - p"
    using assms(6,5) by (rule spike_first_clause)
  have second: "js_gt (Num cur) 70 \<longleftrightarrow> 70 < c" "js_lt (Num prev) 55 \<longleftrightarrow> p < 55"
    by (simp_all add: js_gt_def js_lt_def assms(5,6))
  have det: "detectSpike db now (Num cur) dcInfo \<noteq> None
          \<longleftrightarrow> 20 + 1 / 2 ^ 49 < c - p \<or> (70 < c \<and> p < 55)"
    unfolding detectSpike_def assms(1) by (simp add: Let_def first second)
  have gap: "(0::rat) < 1 / 2 ^ 49" by simp
  have "c - p \<le> 20 \<or> 20 + 1 / 2 ^ 49 < c - p \<longrightarrow>
            (detectSpike db now (Num cur) dcInfo \<noteq> None
               \<longleftrightarrow> 20 < c - p \<or> (70 < c \<and> p < 55))"
    unfolding det using gap by linarith
  moreover note det
  moreover have "\<exists>sp. check_spike fdb r
                  = Inr (20 + 1 / 2 ^ 49 < c - p \<or> (70 < c \<and> p < 55), sp)"
    using check_spike_flag [OF assms(2,3,4)] by (simp only: first second)
  moreover have "js_sub (Num cur) (Num prev) = binary64 (c - p)"
    using assms(6,5) by (rule js_sub_Num)
  moreover have "gt_double (binary64 (c - p)) 20 \<longleftrightarrow> 20 + 1 / 2 ^ 49 < c - p"
    by (rule gt_double_binary64_20)
  ultimately show ?thesis by blast
qed

text \<open>The four transitions of the specification: \<open>50 \<rightarrow> 70\<close> and \<open>60 \<rightarrow> 65\<close> are no
  spikes, \<open>50 \<rightarrow> 71\<close> and \<open>54 \<rightarrow> 71\<close> are.\<close>

theorem spike_rule_doubles_witness:
  "select_latest 1 (db_with_last 50) = [50]
   \<and> readings (file_with_last 50) \<noteq> []
   \<and> index_value (last (readings (file_with_last 50))) = Some 50
   \<and> binary64 50 = Num 50 \<and> binary64 70 = Num 70 \<and> (70 - 50 :: rat) \<le> 20
   \<and> detectSpike (db_with_last 50) (jan19 9 10 0 345) (Num 70) example_info = None
   \<and> detectSpike (db_with_last 50) (jan19 9 10 0 345) (Num 71) example_info \<noteq> None
   \<and> detectSpike (db_with_last 54) (jan19 9 10 0 345) (Num 71) example_info \<noteq> None
   \<and> detectSpike (db_with_last 60) (jan19 9 10 0 345) (Num 65) example_info = None
   \<and> (\<exists>sp. check_spike (file_with_last 50) (one_reading ''2026-01-19T09:10:00.120Z'' (Num 70))
             = Inr (False, sp))
   \<and> (\<exists>sp. check_spike (file_with_last 50) (one_reading ''2026-01-19T09:10:00.120Z'' (Num 71))
             = Inr (True, sp))
   \<and> (\<exists>sp. check_spike (file_with_last 54) (one_reading ''2026-01-19T09:10:00.120Z'' (Num 71))
             = Inr (True, sp))
   \<and> (\<exists>sp. check_spike (file_with_last 60) (one_reading ''2026-01-19T09:10:00.120Z'' (Num 65))
             = Inr (False, sp))"
proof -
  have rule: "(detectSpike (db_with_last x) (jan19 9 10 0 345) (Num y) example_info \<noteq> None
                 \<longleftrightarrow> 20 + 1 / 2 ^ 49 < y' - x' \<or> (70 < y' \<and> x' < 55))
       \<and> (\<exists>sp. check_spike (file_with_last x) (one_reading ''2026-01-19T09:10:00.120Z'' (Num y))
                  = Inr (20 + 1 / 2 ^ 49 < y' - x' \<or> (70 < y' \<and> x' < 55), sp))"
    if "binary64 x = Num x'" "binary64 y = Num y'" for x y x' y'
    using spike_rule_doubles [OF ex_hyps that] by blast
  have d: "binary64 50 = Num 50" "binary64 54 = Num 54" "binary64 60 = Num 60"
    "binary64 65 = Num 65" "binary64 70 = Num 70" "binary64 71 = Num 71"
    by simp_all
  show ?thesis
    using rule [OF d(1) d(5)] rule [OF d(1) d(6)] rule [OF d(2) d(6)] rule [OF d(3) d(4)]
      ex_hyps(1-3) [of 50] d(1) d(5)
    by simp
qed

text \<open>
  The claim compares the exact difference with \<open>20\<close>. From \<open>12.2\<close> to \<open>32.2\<close> the
  difference of the values is \<open>20\<close>, no spike by the claim; the two doubles are
  \<open>20 + 2 ^ - 48\<close> apart, and both detectors report a spike, with that change. From
  \<open>0.01\<close> to \<open>20.01\<close> the two doubles are more than \<open>20\<close> apart; their difference rounds to
  \<open>20\<close>, and no spike is reported.
\<close>

theorem spike_rule_counterexample:
  "detectSpike (db_with_last (61 / 5)) (jan19 9 10 0 345) (Num (161 / 5)) example_info \<noteq> None
   \<and> check_spike (file_with_last (61 / 5))
        (one_reading ''2026-01-19T09:10:00.120Z'' (Num (161 / 5)))
       = Inr (True, [\<lparr>spike_timestamp = ''2026-01-19T09:10:00.120Z'',
                       index_from = Some (61 / 5), index_to = Some (161 / 5),
                       change_amount = Some (5629499534213121 / 281474976710656),
                       spike_is_overtime = True, spike_is_weekend = False\<rparr>])
   \<and> \<not> ((161 / 5 - 61 / 5 :: rat) > 20 \<or> ((161 / 5 :: rat) > 70 \<and> (61 / 5 :: rat) < 55))
   \<and> (5629499534213121 / 281474976710656 :: rat) = 20 + 1 / 2 ^ 48
   \<and> binary64 (1 / 100) = Num (5764607523034235 / 576460752303423488)
   \<and> binary64 (2001 / 100) = Num (5632314283980227 / 281474976710656)
   \<and> (5632314283980227 / 281474976710656 - 5764607523034235 / 576460752303423488 :: rat) > 20
   \<and> detectSpike (db_with_last (1 / 100)) (jan19 9 10 0 345) (Num (2001 / 100)) example_info
       = None
   \<and> check_spike (file_with_last (1 / 100))
        (one_reading ''2026-01-19T09:10:00.120Z'' (Num (2001 / 100)))
       = Inr (False, [])"
  by (simp add: detectSpike_def check_spike_def select_latest_def db_with_last_def
        file_with_last_def one_reading_def js_sub_def js_gt_def js_lt_def example_doubles
        Let_def)

text \<open>
  C9, as the code has it. In the flat-file backend a spike carries the timestamp of the
  new reading: both are the one string \<open>now\<close>. In the database collectors the spike's
  timestamp is the clock sample taken when the spike object is built, and the
  reading's timestamp is the sample taken at the insert; nothing relates the two.
\<close>

theorem spike_timestamp_source:
  "(collect_manual tz now d response df = (Success s, df') \<and> fst (snd s)
      \<longrightarrow> spikes (load df') \<noteq> []
          \<and> spike_timestamp (last (spikes (load df'))) = toISOString now
          \<and> timestamp (last (readings (load df'))) = toISOString now)
   \<and> (detectSpike db now currentIndex dcInfo = Some sp \<longrightarrow> spike_timestamp sp = now)
   \<and> (collect tz clk response db = (Success s', db')
        \<or> collect_continuous tz clk response db = (Success s', db')
      \<longrightarrow> (\<exists>r. pizza_readings db' = pizza_readings db @ [r] \<and> timestamp r = t_insert clk)
          \<and> (pizza_spikes db' = pizza_spikes db
               \<or> (\<exists>row. pizza_spikes db' = pizza_spikes db @ [row]
                      \<and> spike_timestamp row = t_spike clk)))"
proof (intro conjI impI)
  assume a: "collect_manual tz now d response df = (Success s, df') \<and> fst (snd s)"
  then have run: "collect_manual tz now d response df = (Success s, df')" and flag: "fst (snd s)"
    by simp_all
  from collect_manual_Success [OF run] obtain locs sp' where
    cs: "check_spike (load df) (new_reading now (calculateIndex locs) (getDCTimeInfo tz d))
          = Inr (fst (snd s), sp')"
    and f: "df' = Stored (append_reading (load df) sp'
             (new_reading now (calculateIndex locs) (getDCTimeInfo tz d)))"
    by blast
  from check_spike_result [OF cs] flag obtain x where
    x: "sp' = slice_last 100 (spikes (load df) @ [x])"
       "spike_timestamp x = toISOString now"
    by (auto simp: timestamp_new_reading)
  show "spikes (load df') \<noteq> []"
    by (simp add: f spikes_append_reading x(1) slice_last_nonempty)
  show "spike_timestamp (last (spikes (load df'))) = toISOString now"
    by (simp add: f spikes_append_reading x last_slice_last)
  show "timestamp (last (readings (load df'))) = toISOString now"
    using collect_manual_Success_last [OF run] by simp
next
  assume "detectSpike db now currentIndex dcInfo = Some sp"
  then show "spike_timestamp sp = now" by (rule detectSpike_timestamp)
next
  assume a: "collect tz clk response db = (Success s', db')
        \<or> collect_continuous tz clk response db = (Success s', db')"
  then obtain json locs where
    ok: "response = Some json" "success json" "data json = Arr locs"
    using collect_Success_response collect_continuous_Success_response by blast
  let ?r = "reading_object (t_insert clk) (calculateIndex locs) (getDCTimeInfo tz (t_dc clk))"
  from a have "\<exists>db1. insert_reading db ?r = Inr db1
           \<and> pizza_readings db' = pizza_readings db1
           \<and> (pizza_spikes db' = pizza_spikes db1
                \<or> (\<exists>row. pizza_spikes db' = pizza_spikes db1 @ [row]
                       \<and> spike_timestamp row = t_spike clk))"
    unfolding ok(1) using collect_Success [OF _ ok(2,3)] collect_continuous_Success [OF _ ok(2,3)]
    by blast
  then obtain db1 where ins: "insert_reading db ?r = Inr db1"
    and rd: "pizza_readings db' = pizza_readings db1"
    and sp: "pizza_spikes db' = pizza_spikes db1
                \<or> (\<exists>row. pizza_spikes db' = pizza_spikes db1 @ [row]
                       \<and> spike_timestamp row = t_spike clk)"
    by blast
  from insert_reading_Inr [OF ins] obtain x where
    s1: "pizza_spikes db1 = pizza_spikes db"
    and app: "pizza_readings db1 = pizza_readings db @
                [\<lparr>timestamp = timestamp ?r, index_value = x,
                  dc_hour = dc_hour ?r, dc_weekday = dc_weekday ?r,
                  is_overtime = is_overtime ?r, is_weekend = is_weekend ?r\<rparr>]"
    by blast
  show "\<exists>r. pizza_readings db' = pizza_readings db @ [r] \<and> timestamp r = t_insert clk"
    by (simp add: rd app reading_object_def)
  show "pizza_spikes db' = pizza_spikes db
               \<or> (\<exists>row. pizza_spikes db' = pizza_spikes db @ [row]
                      \<and> spike_timestamp row = t_spike clk)"
    using sp by (simp add: s1)
qed

theorem spike_timestamp_source_witness:
  "collect_manual eastern_standard (jan19 9 10 0 0) (jan19 9 10 0 2) (upstream [80])
       after_first_tick
     = (Success (Num 80, True, 2), after_second_tick)
   \<and> fst (snd (Num 80, True, 2 :: nat))
   \<and> spike_timestamp (last (spikes (load after_second_tick))) = toISOString (jan19 9 10 0 0)
   \<and> timestamp (last (readings (load after_second_tick))) = toISOString (jan19 9 10 0 0)"
  using spike_timestamp_source
    [where tz = eastern_standard and now = "jan19 9 10 0 0" and d = "jan19 9 10 0 2"
       and response = "upstream [80]" and df = after_first_tick
       and s = "(Num 80, True, 2)" and df' = after_second_tick]
    second_tick
  by simp

text \<open>A tick of \<open>scripts/continuous.js\<close> that writes a spike whose timestamp is not the
  timestamp of the reading written in the same tick.\<close>

theorem spike_timestamp_counterexample:
  "fst (collect_continuous eastern_standard (clock_at 9 10) (upstream [80])
          \<lparr>pizza_readings = [one_reading (jan19 9 0 0 120) 10], pizza_spikes = []\<rparr>)
     = Success (Num 80, True)
   \<and> map spike_timestamp (pizza_spikes (snd
        (collect_continuous eastern_standard (clock_at 9 10) (upstream [80])
          \<lparr>pizza_readings = [one_reading (jan19 9 0 0 120) 10], pizza_spikes = []\<rparr>)))
     = [jan19 9 10 0 345]
   \<and> map timestamp (pizza_readings (snd
        (collect_continuous eastern_standard (clock_at 9 10) (upstream [80])
          \<lparr>pizza_readings = [one_reading (jan19 9 0 0 120) 10], pizza_spikes = []\<rparr>)))
     = [jan19 9 0 0 120, jan19 9 10 0 120]
   \<and> jan19 9 10 0 345 \<noteq> jan19 9 10 0 120"
  by (simp add: eval_simps)

section \<open>The duplicate guard\<close>



text \<open>
  C7. In the flat-file backend a second tick with the same response, in the minute of a
  tick that has stored its reading, stores nothing: it is skipped and leaves the data
  file exactly as the first tick left it, and the first tick added one reading; whatever
  the outcome of the first tick, running the same tick again leaves the file as the
  first run left it. The database collectors have no check of their own; they rely on
  the unique index of the schema, which the database does not have. There the second
  run of a tick that has stored its reading is accepted again and returns success: the
  table then holds the row twice. No tick of the database collectors is ever skipped.
\<close>

theorem same_minute_rerun:
  "(collect_manual tz now d response df = (Success s, df1)
      \<and> date_trunc_minute now' = date_trunc_minute now
    \<longrightarrow> collect_manual tz now' d' response df1 = (Skipped, df1)
        \<and> (\<exists>r. readings (load df1) = slice_last 10000 (readings (load df) @ [r])))
   \<and> snd (collect_manual tz now d response (snd (collect_manual tz now d response df)))
       = snd (collect_manual tz now d response df)
   \<and> (collect tz clk response db = (Success s', db1)
    \<longrightarrow> (\<exists>row flag db2. pizza_readings db1 = pizza_readings db @ [row]
            \<and> collect tz clk response db1 = (Success (fst s', flag), db2)
            \<and> pizza_readings db2 = pizza_readings db @ [row, row]))
   \<and> (collect_continuous tz clk response db = (Success sc, dbc)
    \<longrightarrow> (\<exists>row flag db2. pizza_readings dbc = pizza_readings db @ [row]
            \<and> collect_continuous tz clk response dbc = (Success (fst sc, flag), db2)
            \<and> pizza_readings db2 = pizza_readings db @ [row, row]))
   \<and> fst (collect tz clk response db) \<noteq> Skipped
   \<and> fst (collect_continuous tz clk response db) \<noteq> Skipped"
proof (intro conjI impI; (elim conjE)?)
  assume run: "collect_manual tz now d response df = (Success s, df1)"
    and same: "date_trunc_minute now' = date_trunc_minute now"
  show "collect_manual tz now' d' response df1 = (Skipped, df1)"
    using run same by (rule rerun_manual)
  from collect_manual_Success [OF run]
  show "\<exists>r. readings (load df1) = slice_last 10000 (readings (load df) @ [r])"
    by (auto simp: readings_append_reading)
next
  show "snd (collect_manual tz now d response (snd (collect_manual tz now d response df)))
       = snd (collect_manual tz now d response df)"
  proof (cases "\<exists>s. fst (collect_manual tz now d response df) = Success s")
    case True
    then obtain s where "collect_manual tz now d response df
        = (Success s, snd (collect_manual tz now d response df))"
      by (metis prod.collapse)
    from rerun_manual [OF this refl] show ?thesis by simp
  next
    case False
    then have "snd (collect_manual tz now d response df) = df"
      by (intro collect_manual_not_Success) simp
    then show ?thesis by simp
  qed
next
  assume "collect tz clk response db = (Success s', db1)"
  then show "\<exists>row flag db2. pizza_readings db1 = pizza_readings db @ [row]
            \<and> collect tz clk response db1 = (Success (fst s', flag), db2)
            \<and> pizza_readings db2 = pizza_readings db @ [row, row]"
    by (rule rerun_collect)
next
  assume "collect_continuous tz clk response db = (Success sc, dbc)"
  then show "\<exists>row flag db2. pizza_readings dbc = pizza_readings db @ [row]
            \<and> collect_continuous tz clk response dbc = (Success (fst sc, flag), db2)
            \<and> pizza_readings db2 = pizza_readings db @ [row, row]"
    by (rule rerun_collect_continuous)
next
  show "fst (collect tz clk response db) \<noteq> Skipped"
    by (rule collect_never_Skipped)
next
  show "fst (collect_continuous tz clk response db) \<noteq> Skipped"
    by (rule collect_continuous_never_Skipped)
qed

text \<open>
  The stored index is \<open>10\<close>, the new one \<open>80\<close>. The flat-file tick, run again within
  the minute, is skipped. \<open>collect\<close> of \<open>scripts/collect.js\<close>, run again with the same
  clock samples, returns success a second time and the table holds \<open>10\<close>, \<open>80\<close>, \<open>80\<close>;
  so does \<open>collect\<close> of \<open>scripts/continuous.js\<close>, which has written a spike in its
  first run.
\<close>

theorem same_minute_rerun_witness:
  "collect_manual eastern_standard (jan19 9 10 0 0) (jan19 9 10 0 2) (upstream [80])
       after_first_tick
     = (Success (Num 80, True, 2), after_second_tick)
   \<and> date_trunc_minute (jan19 9 10 59 999) = date_trunc_minute (jan19 9 10 0 0)
   \<and> collect_manual eastern_standard (jan19 9 10 59 999) (jan19 9 11 0 0) (upstream [80])
       after_second_tick
     = (Skipped, after_second_tick)
   \<and> collect eastern_standard (clock_at 9 10) (upstream [80])
        \<lparr>pizza_readings = [one_reading (jan19 9 0 0 120) 10], pizza_spikes = []\<rparr>
     = (Success (Num 80, False),
        \<lparr>pizza_readings = [one_reading (jan19 9 0 0 120) 10, one_reading (jan19 9 10 0 120) 80],
         pizza_spikes = []\<rparr>)
   \<and> collect eastern_standard (clock_at 9 10) (upstream [80])
        \<lparr>pizza_readings = [one_reading (jan19 9 0 0 120) 10, one_reading (jan19 9 10 0 120) 80],
         pizza_spikes = []\<rparr>
     = (Success (Num 80, False),
        \<lparr>pizza_readings = [one_reading (jan19 9 0 0 120) 10, one_reading (jan19 9 10 0 120) 80,
                            one_reading (jan19 9 10 0 120) 80],
         pizza_spikes = []\<rparr>)
   \<and> collect_continuous eastern_standard (clock_at 9 10) (upstream [80])
        \<lparr>pizza_readings = [one_reading (jan19 9 0 0 120) 10], pizza_spikes = []\<rparr>
     = (Success (Num 80, True),
        \<lparr>pizza_readings = [one_reading (jan19 9 0 0 120) 10, one_reading (jan19 9 10 0 120) 80],
         pizza_spikes = [spike_10_80]\<rparr>)
   \<and> collect_continuous eastern_standard (clock_at 9 10) (upstream [80])
        \<lparr>pizza_readings = [one_reading (jan19 9 0 0 120) 10, one_reading (jan19 9 10 0 120) 80],
         pizza_spikes = [spike_10_80]\<rparr>
     = (Success (Num 80, False),
        \<lparr>pizza_readings = [one_reading (jan19 9 0 0 120) 10, one_reading (jan19 9 10 0 120) 80,
                            one_reading (jan19 9 10 0 120) 80],
         pizza_spikes = [spike_10_80]\<rparr>)"
proof -
  have flat1: "collect_manual eastern_standard (jan19 9 10 0 0) (jan19 9 10 0 2) (upstream [80])
       after_first_tick = (Success (Num 80, True, 2), after_second_tick)"
    by (rule second_tick)
  have same: "date_trunc_minute (jan19 9 10 59 999) = date_trunc_minute (jan19 9 10 0 0)"
    by (simp add: date_trunc_minute_def jan19_def)
  have db1: "collect eastern_standard (clock_at 9 10) (upstream [80])
        \<lparr>pizza_readings = [one_reading (jan19 9 0 0 120) 10], pizza_spikes = []\<rparr>
     = (Success (Num 80, False),
        \<lparr>pizza_readings = [one_reading (jan19 9 0 0 120) 10, one_reading (jan19 9 10 0 120) 80],
         pizza_spikes = []\<rparr>)"
    by (simp add: eval_simps)
  have db2: "collect eastern_standard (clock_at 9 10) (upstream [80])
        \<lparr>pizza_readings = [one_reading (jan19 9 0 0 120) 10, one_reading (jan19 9 10 0 120) 80],
         pizza_spikes = []\<rparr>
     = (Success (Num 80, False),
        \<lparr>pizza_readings = [one_reading (jan19 9 0 0 120) 10, one_reading (jan19 9 10 0 120) 80,
                            one_reading (jan19 9 10 0 120) 80],
         pizza_spikes = []\<rparr>)"
    by (simp add: eval_simps)
  have dc1: "collect_continuous eastern_standard (clock_at 9 10) (upstream [80])
        \<lparr>pizza_readings = [one_reading (jan19 9 0 0 120) 10], pizza_spikes = []\<rparr>
     = (Success (Num 80, True),
        \<lparr>pizza_readings = [one_reading (jan19 9 0 0 120) 10, one_reading (jan19 9 10 0 120) 80],
         pizza_spikes = [spike_10_80]\<rparr>)"
    by (simp add: eval_simps spike_10_80_def)
  have dc2: "collect_continuous eastern_standard (clock_at 9 10) (upstream [80])
        \<lparr>pizza_readings = [one_reading (jan19 9 0 0 120) 10, one_reading (jan19 9 10 0 120) 80],
         pizza_spikes = [spike_10_80]\<rparr>
     = (Success (Num 80, False),
        \<lparr>pizza_readings = [one_reading (jan19 9 0 0 120) 10, one_reading (jan19 9 10 0 120) 80,
                            one_reading (jan19 9 10 0 120) 80],
         pizza_spikes = [spike_10_80]\<rparr>)"
    by (simp add: eval_simps)
  note inst = same_minute_rerun
    [where tz = eastern_standard and now = "jan19 9 10 0 0" and d = "jan19 9 10 0 2"
       and response = "upstream [80]" and df = after_first_tick
       and s = "(Num 80, True, 2)" and ?df1.0 = after_second_tick
       and now' = "jan19 9 10 59 999" and d' = "jan19 9 11 0 0"
       and clk = "clock_at 9 10"
       and db = "\<lparr>pizza_readings = [one_reading (jan19 9 0 0 120) 10], pizza_spikes = []\<rparr>"
       and s' = "(Num 80, False)"
       and ?db1.0 = "\<lparr>pizza_readings = [one_reading (jan19 9 0 0 120) 10,
                                           one_reading (jan19 9 10 0 120) 80],
                      pizza_spikes = []\<rparr>"
       and sc = "(Num 80, True)"
       and dbc = "\<lparr>pizza_readings = [one_reading (jan19 9 0 0 120) 10,
                                       one_reading (jan19 9 10 0 120) 80],
                  pizza_spikes = [spike_10_80]\<rparr>"]
  from inst flat1 same db1 db2 dc1 dc2 show ?thesis by simp
qed

section \<open>The flat-file store\<close>

text \<open>
  C8. Start without a usable data file and run any sequence of ticks. After every
  further successful tick the file holds at most 10000 readings and at most 100
  spikes. The readings are the last 10000 of the readings loaded followed by the new
  one, in their order: at 10000 readings loaded, the oldest one goes and the new one is
  appended. The spikes are the ones loaded, or, when this tick records a spike, the
  last 100 of those followed by the new spike: at 100 loaded, the oldest one goes.
\<close>

theorem flat_file_retention:
  assumes "start = Missing \<or> start = Unparseable"
    and "df = run_manual tz ticks start"
    and "collect_manual tz now d response df = (Success s, df')"
  shows "(\<exists>db'. df' = Stored db')
       \<and> length (readings (load df')) \<le> 10000 \<and> length (spikes (load df')) \<le> 100
       \<and> length (readings (load df')) = min 10000 (length (readings (load df)) + 1)
       \<and> (\<exists>r. timestamp r = toISOString now
              \<and> readings (load df') = slice_last 10000 (readings (load df) @ [r])
              \<and> (length (readings (load df)) = 10000
                   \<longrightarrow> readings (load df') = tl (readings (load df)) @ [r]))
       \<and> (if fst (snd s)
           then \<exists>sp. spike_timestamp sp = toISOString now
                     \<and> spikes (load df') = slice_last 100 (spikes (load df) @ [sp])
                     \<and> (length (spikes (load df)) = 100
                          \<longrightarrow> spikes (load df') = tl (spikes (load df)) @ [sp])
           else spikes (load df') = spikes (load df))"
proof -
  from assms(1) have "length (spikes (load start)) \<le> 100" by auto
  then have cap: "length (spikes (load df)) \<le> 100"
    unfolding assms(2) by (rule run_manual_spike_cap)
  from collect_manual_Success [OF assms(3)] obtain locs sp where
    cs: "check_spike (load df) (new_reading now (calculateIndex locs) (getDCTimeInfo tz d))
          = Inr (fst (snd s), sp)"
    and f: "df' = Stored (append_reading (load df) sp
             (new_reading now (calculateIndex locs) (getDCTimeInfo tz d)))"
    by blast
  let ?r = "new_reading now (calculateIndex locs) (getDCTimeInfo tz d)"
  have ld: "load df' = append_reading (load df) sp ?r"
    by (simp add: f)
  have 0: "\<exists>db'. df' = Stored db'"
    by (simp add: f)
  have 1: "length (readings (load df')) \<le> 10000"
    by (simp add: ld readings_append_reading length_slice_last)
  have 2: "length (spikes (load df')) \<le> 100"
    using check_spike_length [OF cs cap] by (simp add: ld spikes_append_reading)
  have 3: "length (readings (load df')) = min 10000 (length (readings (load df)) + 1)"
    by (simp add: ld readings_append_reading length_slice_last)
  have 4: "\<exists>r. timestamp r = toISOString now
              \<and> readings (load df') = slice_last 10000 (readings (load df) @ [r])
              \<and> (length (readings (load df)) = 10000
                   \<longrightarrow> readings (load df') = tl (readings (load df)) @ [r])"
  proof (intro exI conjI impI)
    show "timestamp (stored_reading ?r) = toISOString now"
      by (simp add: timestamp_stored_reading timestamp_new_reading)
    show eq: "readings (load df') = slice_last 10000 (readings (load df) @ [stored_reading ?r])"
      unfolding ld by (rule readings_append_reading)
    assume "length (readings (load df)) = 10000"
    then show "readings (load df') = tl (readings (load df)) @ [stored_reading ?r]"
      unfolding eq by (rule slice_last_full) simp
  qed
  have 5: "if fst (snd s)
           then \<exists>sp'. spike_timestamp sp' = toISOString now
                     \<and> spikes (load df') = slice_last 100 (spikes (load df) @ [sp'])
                     \<and> (length (spikes (load df)) = 100
                          \<longrightarrow> spikes (load df') = tl (spikes (load df)) @ [sp'])
           else spikes (load df') = spikes (load df)"
  proof (cases "fst (snd s)")
    case True
    with check_spike_result [OF cs] obtain x where
      x: "sp = slice_last 100 (spikes (load df) @ [x])" "spike_timestamp x = toISOString now"
      by (auto simp: timestamp_new_reading)
    have "length (spikes (load df)) = 100 \<longrightarrow> spikes (load df') = tl (spikes (load df)) @ [x]"
      by (simp add: ld spikes_append_reading x(1) slice_last_full)
    with x True show ?thesis
      by (auto simp: ld spikes_append_reading)
  next
    case False
    with check_spike_result [OF cs] show ?thesis
      by (simp add: ld spikes_append_reading)
  qed
  from 0 1 2 3 4 5 show ?thesis by blast
qed

theorem flat_file_retention_witness:
  "(Missing = Missing \<or> Missing = Unparseable)
   \<and> after_first_tick
       = run_manual eastern_standard [(jan19 9 0 0 0, jan19 9 0 0 2, upstream [10])] Missing
   \<and> collect_manual eastern_standard (jan19 9 10 0 0) (jan19 9 10 0 2) (upstream [80])
         after_first_tick
       = (Success (Num 80, True, 2), after_second_tick)
   \<and> length (readings (load after_second_tick)) \<le> 10000
   \<and> length (spikes (load after_second_tick)) \<le> 100
   \<and> length (readings (load after_second_tick))
       = min 10000 (length (readings (load after_first_tick)) + 1)"
proof -
  have h1: "Missing = Missing \<or> Missing = Unparseable" by simp
  have h2: "after_first_tick
       = run_manual eastern_standard [(jan19 9 0 0 0, jan19 9 0 0 2, upstream [10])] Missing"
    by (simp add: first_tick)
  from flat_file_retention [OF h1 h2 second_tick] h1 h2 second_tick
  show ?thesis by blast
qed

text \<open>
  C10. When the data file is missing or does not parse, the tick carries on with the
  empty database. On a well-formed response it succeeds and writes a file that holds
  the new reading alone: whatever the unreadable file held is gone.
\<close>

theorem corrupt_file_discarded:
  assumes "df = Missing \<or> df = Unparseable"
    and "success json" "data json = Arr locs"
  shows "load df = \<lparr>readings = [], spikes = [], lastUpdate = None\<rparr>
       \<and> collect_manual tz now d (Some json) df =
           (Success (parseFloat_toFixed2 (calculateIndex locs), False, 1),
            Stored \<lparr>readings = [stored_reading (new_reading now (calculateIndex locs)
                                                  (getDCTimeInfo tz d))],
                    spikes = [],
                    lastUpdate = Some (toISOString now)\<rparr>)"
  using assms
  by (auto simp: collect_manual_Arr Let_def duplicate_minute_def check_spike_def
        append_reading_def timestamp_new_reading index_value_new_reading)

theorem corrupt_file_discarded_witness:
  "(Unparseable = Missing \<or> Unparseable = Unparseable)
   \<and> collect_manual eastern_standard (jan19 9 1 47 0) (jan19 9 1 47 2) (upstream [40, 60]) Unparseable
      = (Success (Num 50, False, 1),
         Stored \<lparr>readings = [one_reading ''2026-01-19T09:01:47.000Z'' (Some 50)],
                 spikes = [],
                 lastUpdate = Some ''2026-01-19T09:01:47.000Z''\<rparr>)"
  using corrupt_file_discarded
    [where df = Unparseable and tz = eastern_standard and now = "jan19 9 1 47 0"
       and d = "jan19 9 1 47 2"
       and json = "\<lparr>success = True, data = Arr [\<lparr>current_popularity = Pop 40\<rparr>,
                                               \<lparr>current_popularity = Pop 60\<rparr>]\<rparr>"
       and locs = "[\<lparr>current_popularity = Pop 40\<rparr>, \<lparr>current_popularity = Pop 60\<rparr>]"]
  by (simp add: eval_simps flat_eval)

end
